theory Spec2Isabelle
  imports Main "HOL-Library.Sublist" "HOL-Library.AList" "HOL-Library.Multiset" "HOL-Library.Word"
begin

chapter \<open>The federation utilities and the HTTP-signature transport of package pub\<close>

text \<open>
  This theory embeds the functions of \<^verbatim>\<open>pub/util.go\<close> and \<^verbatim>\<open>pub/transport.go\<close> that the
  specification makes promises about, and proves or refutes those promises.

  Conventions of the embedding.
  \<^item> A \<^verbatim>\<open>*url.URL\<close> is a value of an arbitrary type \<open>'u\<close>; its method \<^verbatim>\<open>String()\<close> belongs to
    Go's \<^verbatim>\<open>net/url\<close> and is the parameter \<open>str\<close> of every function that calls it. Two URLs
    may have the same string.
  \<^item> A \<^verbatim>\<open>vocab.Type\<close> is a finite tree (what deserialisation produces): properties hold
    their elements by value, so a function that mutates its argument in place returns the
    mutated value.
  \<^item> Go's \<^verbatim>\<open>error\<close> results are values of the type \<open>error\<close>; a runtime panic of the source is
    the error \<open>ErrNilDereference\<close>.
  \<^item> A Go \<^verbatim>\<open>map[string]bool\<close> that is only ever set to true is a function \<open>string \<Rightarrow> bool\<close>
    (a missing key reads as false); a map that is ranged over is an association list with
    \<open>AList.update\<close> as assignment, and the order of \<^verbatim>\<open>range\<close>, which Go leaves unspecified, is
    the parameter \<open>rng\<close>.
\<close>

section \<open>Errors\<close>

datatype dim = To | Bto | Cc | Bcc | Audience

datatype error =
    ErrNoIdValue
  | ErrNoIdProperty
  | ErrElementNoId nat
  | ErrCreateObjectNoProp nat dim
  | ErrNeitherValueNorIRI
  | ErrNoActorProperty
  | ErrActorsMismatch
  | ErrNilDereference
  | ErrExternal string
  | ErrPostFailed string int string "8 word list" "8 word list"
  | ErrBatchDeliver string

text \<open>
  \<open>ErrNoIdValue\<close>: "cannot determine id of activitystreams value";
  \<open>ErrNoIdProperty\<close>: "cannot determine id of activitystreams property";
  \<open>ErrElementNoId i\<close>: "element i in OrderedCollection does not have an ID nor is an IRI";
  \<open>ErrCreateObjectNoProp i D\<close>: "the Create object at i has no 'D' property";
  \<open>ErrNeitherValueNorIRI\<close>: "cannot verify actors: object is neither a value nor IRI";
  \<open>ErrNoActorProperty\<close>: "cannot verify actors: object value has no 'actor' property";
  \<open>ErrActorsMismatch\<close>: "activity does not have all actors from its object's actors";
  \<open>ErrExternal\<close>: an error returned by a collaborator outside the package (the HTTP client,
  the signer, the JSON decoder, the vocabulary);
  \<open>ErrPostFailed url code status body payload\<close>: "POST request to url failed (code): status";
  \<open>ErrBatchDeliver s\<close>: "batch deliver had at least one failure: s".
\<close>

section \<open>ActivityStreams values\<close>

text \<open>
  A property accessor of a value is reached through an interface assertion such as
  \<^verbatim>\<open>obj.(btoer)\<close>: \<open>Absent\<close> when the value's type does not have the accessor, \<open>Unset\<close> when
  the accessor returns nil, \<open>Has p\<close> when it returns the property \<open>p\<close>.
\<close>

datatype 'a slot = Absent | Unset | Has 'a

text \<open>
  An element of a property (an iterator of the source) holds an embedded value
  (\<^verbatim>\<open>GetType() != nil\<close>), an IRI (\<^verbatim>\<open>IsIRI()\<close>), or something else.
\<close>

datatype 'u elem = AsType "'u vtype" | AsIRI 'u | AsOther
and 'u vtype = VType
  (typeName: string)
  (idP: "'u option")
  (hrefP: "'u slot")
  (toP: "'u elem list slot")
  (btoP: "'u elem list slot")
  (ccP: "'u elem list slot")
  (bccP: "'u elem list slot")
  (audienceP: "'u elem list slot")
  (objectP: "'u elem list slot")
  (actorP: "'u elem list slot")
  (targetP: "'u elem list slot")
  (publishedP: "int slot")
  (updatedP: "int slot")
  (formerTypeP: "string list slot")
  (deletedP: "int slot")

definition SetActivityStreamsId :: "'u \<Rightarrow> 'u vtype \<Rightarrow> 'u vtype" where
  "SetActivityStreamsId v t =
     (case t of VType n i h to bto cc bcc aud ob ac ta pu up ft de \<Rightarrow>
        VType n (Some v) h to bto cc bcc aud ob ac ta pu up ft de)"

definition SetActivityStreamsTo :: "'u elem list \<Rightarrow> 'u vtype \<Rightarrow> 'u vtype" where
  "SetActivityStreamsTo p t =
     (case t of VType n i h to bto cc bcc aud ob ac ta pu up ft de \<Rightarrow>
        VType n i h (Has p) bto cc bcc aud ob ac ta pu up ft de)"

definition SetActivityStreamsBto :: "'u elem list \<Rightarrow> 'u vtype \<Rightarrow> 'u vtype" where
  "SetActivityStreamsBto p t =
     (case t of VType n i h to bto cc bcc aud ob ac ta pu up ft de \<Rightarrow>
        VType n i h to (Has p) cc bcc aud ob ac ta pu up ft de)"

definition SetActivityStreamsCc :: "'u elem list \<Rightarrow> 'u vtype \<Rightarrow> 'u vtype" where
  "SetActivityStreamsCc p t =
     (case t of VType n i h to bto cc bcc aud ob ac ta pu up ft de \<Rightarrow>
        VType n i h to bto (Has p) bcc aud ob ac ta pu up ft de)"

definition SetActivityStreamsBcc :: "'u elem list \<Rightarrow> 'u vtype \<Rightarrow> 'u vtype" where
  "SetActivityStreamsBcc p t =
     (case t of VType n i h to bto cc bcc aud ob ac ta pu up ft de \<Rightarrow>
        VType n i h to bto cc (Has p) aud ob ac ta pu up ft de)"

definition SetActivityStreamsAudience :: "'u elem list \<Rightarrow> 'u vtype \<Rightarrow> 'u vtype" where
  "SetActivityStreamsAudience p t =
     (case t of VType n i h to bto cc bcc aud ob ac ta pu up ft de \<Rightarrow>
        VType n i h to bto cc bcc (Has p) ob ac ta pu up ft de)"

definition SetActivityStreamsObject :: "'u elem list \<Rightarrow> 'u vtype \<Rightarrow> 'u vtype" where
  "SetActivityStreamsObject p t =
     (case t of VType n i h to bto cc bcc aud ob ac ta pu up ft de \<Rightarrow>
        VType n i h to bto cc bcc aud (Has p) ac ta pu up ft de)"

definition SetActivityStreamsPublished :: "int \<Rightarrow> 'u vtype \<Rightarrow> 'u vtype" where
  "SetActivityStreamsPublished p t =
     (case t of VType n i h to bto cc bcc aud ob ac ta pu up ft de \<Rightarrow>
        VType n i h to bto cc bcc aud ob ac ta (Has p) up ft de)"

definition SetActivityStreamsUpdated :: "int \<Rightarrow> 'u vtype \<Rightarrow> 'u vtype" where
  "SetActivityStreamsUpdated p t =
     (case t of VType n i h to bto cc bcc aud ob ac ta pu up ft de \<Rightarrow>
        VType n i h to bto cc bcc aud ob ac ta pu (Has p) ft de)"

definition SetActivityStreamsFormerType :: "string list \<Rightarrow> 'u vtype \<Rightarrow> 'u vtype" where
  "SetActivityStreamsFormerType p t =
     (case t of VType n i h to bto cc bcc aud ob ac ta pu up ft de \<Rightarrow>
        VType n i h to bto cc bcc aud ob ac ta pu up (Has p) de)"

definition SetActivityStreamsDeleted :: "int \<Rightarrow> 'u vtype \<Rightarrow> 'u vtype" where
  "SetActivityStreamsDeleted p t =
     (case t of VType n i h to bto cc bcc aud ob ac ta pu up ft de \<Rightarrow>
        VType n i h to bto cc bcc aud ob ac ta pu up ft (Has p))"

text \<open>\<^verbatim>\<open>Remove(idx)\<close> of a property: the elements after \<open>idx\<close> move one place forward.\<close>

definition Remove :: "nat \<Rightarrow> 'a list \<Rightarrow> 'a list" where
  "Remove idx xs = take idx xs @ drop (Suc idx) xs"

subsection \<open>GetId and ToId\<close>

text \<open>
  \<^verbatim>\<open>GetId\<close>: the \<^verbatim>\<open>id\<close> property when set; otherwise, when the value is an \<^verbatim>\<open>hrefer\<close> whose
  \<^verbatim>\<open>href\<close> is set, the \<^verbatim>\<open>href\<close>; otherwise an error.
\<close>

definition GetId :: "'u vtype \<Rightarrow> error + 'u" where
  "GetId t =
     (case idP t of
        Some i \<Rightarrow> Inr i
      | None \<Rightarrow> (case hrefP t of Has href \<Rightarrow> Inr href | _ \<Rightarrow> Inl ErrNoIdValue))"

fun ToId :: "'u elem \<Rightarrow> error + 'u" where
  "ToId (AsType t) = GetId t"
| "ToId (AsIRI u) = Inr u"
| "ToId AsOther = Inl ErrNoIdProperty"

section \<open>Recognising ActivityPub requests\<close>

text \<open>\<^verbatim>\<open>strings.Contains(s, substr)\<close>: \<open>substr\<close> occurs in \<open>s\<close> as a contiguous block.\<close>

definition Contains :: "string \<Rightarrow> string \<Rightarrow> bool" where
  "Contains s substr = sublist substr s"

definition jsonLdType :: string where
  "jsonLdType = ''application/ld+json''"

definition profileUnquoted :: string where
  "profileUnquoted = ''profile=https://www.w3.org/ns/activitystreams''"

definition profileQuoted :: string where
  "profileQuoted = ''profile='' @ [CHR 0x22] @ ''https://www.w3.org/ns/activitystreams'' @ [CHR 0x22]"

text \<open>
  The package's \<^verbatim>\<open>init\<close>: the list starts with the plain media type; the outer loop runs
  over the four spellings of the semicolon, the inner loop over the two spellings of the
  profile, appending \<^verbatim>\<open>jsonLdType + semi + profile\<close>.
\<close>

definition activityStreamsMediaTypes :: "string list" where
  "activityStreamsMediaTypes =
     [''application/activity+json''] @
     concat (map (\<lambda>semi. map (\<lambda>profile. jsonLdType @ semi @ profile)
                            [profileUnquoted, profileQuoted])
                 ['';'', '' ;'', '' ; '', ''; ''])"

fun containsAny :: "string \<Rightarrow> string list \<Rightarrow> bool" where
  "containsAny header [] = False"
| "containsAny header (mediaType # rest) =
     (if Contains header mediaType then True else containsAny header rest)"

definition headerIsActivityPubMediaType :: "string \<Rightarrow> bool" where
  "headerIsActivityPubMediaType header = containsAny header activityStreamsMediaTypes"

text \<open>
  An \<^verbatim>\<open>http.Request\<close>: its method, its URL, its header (a map from a canonical header name to
  the list of its values; a name that is not there has no values) and the buffer that
  holds its body. \<^verbatim>\<open>Header.Get\<close> is the first value of a name, or the empty string;
  \<^verbatim>\<open>Header.Add\<close> appends a value. Both constants below are in canonical form already.
\<close>

record request =
  Method :: string
  URL :: string
  Header :: "string \<Rightarrow> string list"
  Body :: nat

definition Get :: "(string \<Rightarrow> string list) \<Rightarrow> string \<Rightarrow> string" where
  "Get h key = (case h key of [] \<Rightarrow> [] | v # _ \<Rightarrow> v)"

definition Add :: "string \<Rightarrow> string \<Rightarrow> request \<Rightarrow> request" where
  "Add key v req = req\<lparr>Header := (Header req)(key := Header req key @ [v])\<rparr>"

definition contentTypeHeader :: string where
  "contentTypeHeader = ''Content-Type''"

definition acceptHeader :: string where
  "acceptHeader = ''Accept''"

definition isActivityPubPost :: "request \<Rightarrow> bool" where
  "isActivityPubPost r \<longleftrightarrow>
     Method r = ''POST'' \<and> headerIsActivityPubMediaType (Get (Header r) contentTypeHeader)"

definition isActivityPubGet :: "request \<Rightarrow> bool" where
  "isActivityPubGet r \<longleftrightarrow>
     Method r = ''GET'' \<and> headerIsActivityPubMediaType (Get (Header r) acceptHeader)"

definition IsActivityPubRequest :: "request \<Rightarrow> bool" where
  "IsActivityPubRequest r \<longleftrightarrow> isActivityPubGet r \<or> isActivityPubPost r"

text \<open>
  The media types as the specification lists them: the plain one, and the JSON-LD type
  followed by a semicolon with at most one blank on either side and the profile
  parameter, its URI quoted or not.
\<close>

definition acceptedMediaTypes :: "string list" where
  "acceptedMediaTypes =
     [''application/activity+json'',
      ''application/ld+json;profile=https://www.w3.org/ns/activitystreams'',
      ''application/ld+json;'' @ profileQuoted,
      ''application/ld+json ;profile=https://www.w3.org/ns/activitystreams'',
      ''application/ld+json ;'' @ profileQuoted,
      ''application/ld+json ; profile=https://www.w3.org/ns/activitystreams'',
      ''application/ld+json ; '' @ profileQuoted,
      ''application/ld+json; profile=https://www.w3.org/ns/activitystreams'',
      ''application/ld+json; '' @ profileQuoted]"

definition mentionsAccepted :: "string \<Rightarrow> bool" where
  "mentionsAccepted header \<longleftrightarrow> (\<exists>m \<in> set acceptedMediaTypes. sublist m header)"

section \<open>dedupeOrderedItems\<close>

text \<open>
  The loop of \<^verbatim>\<open>dedupeOrderedItems\<close> over the index \<open>i\<close>: the element's id is that of its
  embedded value, or the element itself when it is an IRI; an element whose id string was
  seen is removed and the index stays, otherwise the string is marked and the index moves
  on. The property is changed in place, so an error leaves it as far as the loop came.
\<close>

function dedupeOrderedItemsLoop ::
  "('u \<Rightarrow> string) \<Rightarrow> (string \<Rightarrow> bool) \<Rightarrow> nat \<Rightarrow> 'u elem list \<Rightarrow> 'u elem list \<times> error option"
where
  "dedupeOrderedItemsLoop str seen i oi =
     (if i < length oi then
        (case (case oi ! i of
                 AsType asType \<Rightarrow> GetId asType
               | AsIRI iri \<Rightarrow> Inr iri
               | AsOther \<Rightarrow> Inl (ErrElementNoId i)) of
           Inl err \<Rightarrow> (oi, Some err)
         | Inr u \<Rightarrow>
             if seen (str u) then dedupeOrderedItemsLoop str seen i (Remove i oi)
             else dedupeOrderedItemsLoop str (seen(str u := True)) (Suc i) oi)
      else (oi, None))"
  by pat_completeness auto
termination
  by (relation "measure (\<lambda>(str, seen, i, oi). 2 * length oi - i)") (auto simp: Remove_def)

declare dedupeOrderedItemsLoop.simps [simp del]

text \<open>
  The argument is what \<^verbatim>\<open>oc.GetActivityStreamsOrderedItems()\<close> returns (\<open>None\<close> for nil); the
  result is the property afterwards and the error returned.
\<close>

definition dedupeOrderedItems ::
  "('u \<Rightarrow> string) \<Rightarrow> 'u elem list option \<Rightarrow> 'u elem list option \<times> error option" where
  "dedupeOrderedItems str oc =
     (case oc of
        None \<Rightarrow> (None, None)
      | Some oi \<Rightarrow>
          (case dedupeOrderedItemsLoop str (\<lambda>_. False) 0 oi of (oi', err) \<Rightarrow> (Some oi', err)))"

text \<open>The id string of an element, when it has one (the rule of the loop above).\<close>

definition elemKey :: "('u \<Rightarrow> string) \<Rightarrow> 'u elem \<Rightarrow> string option" where
  "elemKey str e = (case ToId e of Inl _ \<Rightarrow> None | Inr u \<Rightarrow> Some (str u))"

text \<open>
  What the specification asks for: the elements, in their order, whose key has not
  occurred at an earlier index.
\<close>

definition firstOccurrences :: "('a \<Rightarrow> 'k) \<Rightarrow> 'a list \<Rightarrow> 'a list" where
  "firstOccurrences key xs =
     map (\<lambda>j. xs ! j) (filter (\<lambda>j. key (xs ! j) \<notin> key ` set (take j xs)) [0..<length xs])"

section \<open>dedupeIRIs\<close>

fun dedupeIRIsLoop ::
  "('u \<Rightarrow> string) \<Rightarrow> (string \<Rightarrow> bool) \<Rightarrow> (string \<Rightarrow> bool) \<Rightarrow> 'u list \<Rightarrow> 'u list \<Rightarrow> 'u list" where
  "dedupeIRIsLoop str ignoredMap outMap out [] = out"
| "dedupeIRIsLoop str ignoredMap outMap out (k # rest) =
     (let kStr = str k in
      if \<not> ignoredMap kStr \<and> \<not> outMap kStr
      then dedupeIRIsLoop str ignoredMap (outMap(kStr := True)) (out @ [k]) rest
      else dedupeIRIsLoop str ignoredMap outMap out rest)"

definition dedupeIRIs :: "('u \<Rightarrow> string) \<Rightarrow> 'u list \<Rightarrow> 'u list \<Rightarrow> 'u list" where
  "dedupeIRIs str recipients ignored =
     (let ignoredMap = foldl (\<lambda>m elem. m(str elem := True)) (\<lambda>_. False) ignored
      in dedupeIRIsLoop str ignoredMap (\<lambda>_. False) [] recipients)"

section \<open>stripHiddenRecipients and clearSensitiveFields\<close>

text \<open>
  \<^verbatim>\<open>for i := bto.Len() - 1; i >= 0; i-- { bto.Remove(i) }\<close>: the argument \<open>n\<close> is \<open>i + 1\<close>.
\<close>

fun removeFromBack :: "nat \<Rightarrow> 'a list \<Rightarrow> 'a list" where
  "removeFromBack 0 xs = xs"
| "removeFromBack (Suc i) xs = removeFromBack i (Remove i xs)"

text \<open>\<^verbatim>\<open>for bto.Len() > 0 { bto.Remove(0) }\<close>\<close>

function removeFromFront :: "'a list \<Rightarrow> 'a list" where
  "removeFromFront xs = (if length xs > 0 then removeFromFront (Remove 0 xs) else xs)"
  by pat_completeness auto
termination
  by (relation "measure length") (auto simp: Remove_def)

declare removeFromFront.simps [simp del]

text \<open>
  \<^verbatim>\<open>stripHiddenRecipients\<close> takes an \<^verbatim>\<open>Activity\<close>, whose type has both accessors; each property
  that is not nil is emptied from its last element to its first.
\<close>

definition stripHiddenRecipients :: "'u vtype \<Rightarrow> 'u vtype" where
  "stripHiddenRecipients activity =
     (let a1 = (case btoP activity of
                  Has bto \<Rightarrow> SetActivityStreamsBto (removeFromBack (length bto) bto) activity
                | _ \<Rightarrow> activity)
      in case bccP a1 of
           Has bcc \<Rightarrow> SetActivityStreamsBcc (removeFromBack (length bcc) bcc) a1
         | _ \<Rightarrow> a1)"

text \<open>
  \<^verbatim>\<open>clearSensitiveFields\<close>: when the value is a \<^verbatim>\<open>btoer\<close> with a \<^verbatim>\<open>bto\<close> that is not nil, the
  property is emptied from the front; the same for \<^verbatim>\<open>bcc\<close>; when the value is an
  \<^verbatim>\<open>objecter\<close> whose \<^verbatim>\<open>object\<close> is not nil, the function is applied to \<^verbatim>\<open>GetType()\<close> of every
  element (nil for an element that holds no value, on which all three assertions fail).
  No other property is visited.
\<close>

definition emptied :: "'a list slot \<Rightarrow> 'a list slot" where
  "emptied p = (case p of Has xs \<Rightarrow> Has (removeFromFront xs) | _ \<Rightarrow> p)"

fun clearSensitiveFields :: "'u vtype \<Rightarrow> 'u vtype" where
  "clearSensitiveFields (VType n i h to bto cc bcc aud ob ac ta pu up ft de) =
     VType n i h to (emptied bto) cc (emptied bcc) aud
       (case ob of
          Has op \<Rightarrow> Has (map (\<lambda>iter. case iter of
                                       AsType t \<Rightarrow> AsType (clearSensitiveFields t)
                                     | _ \<Rightarrow> iter) op)
        | _ \<Rightarrow> ob)
       ac ta pu up ft de"

text \<open>The elements of a property; none when the accessor is missing or returns nil.\<close>

definition elems :: "'a list slot \<Rightarrow> 'a list" where
  "elems p = (case p of Has xs \<Rightarrow> xs | _ \<Rightarrow> [])"

text \<open>The values embedded in a list of elements.\<close>

definition embedded :: "'u elem list \<Rightarrow> 'u vtype list" where
  "embedded es = concat (map (\<lambda>e. case e of AsType t \<Rightarrow> [t] | _ \<Rightarrow> []) es)"

lemma size_embedded_elems:
  "AsType x \<in> set (elems p) \<Longrightarrow> size x < size_slot (size_list size) p"
proof (cases p)
  case (Has xs)
  assume "AsType x \<in> set (elems p)"
  with Has have "AsType x \<in> set xs" by (simp add: elems_def)
  then have "size (AsType x) \<le> size_list size xs"
    by (rule size_list_estimation') simp
  with Has show ?thesis by simp
qed (simp_all add: elems_def)

text \<open>A value and every value reached from it through \<^verbatim>\<open>object\<close> properties.\<close>

function viaObject :: "'u vtype \<Rightarrow> 'u vtype list" where
  "viaObject (VType n i h to bto cc bcc aud ob ac ta pu up ft de) =
     VType n i h to bto cc bcc aud ob ac ta pu up ft de #
     concat (map (\<lambda>e. case e of AsType t \<Rightarrow> viaObject t | _ \<Rightarrow> []) (elems ob))"
  by pat_completeness auto
termination
  by (relation "measure size") (auto dest!: size_embedded_elems)

text \<open>A value and every value reached from it through any property that embeds values.\<close>

function subvalues :: "'u vtype \<Rightarrow> 'u vtype list" where
  "subvalues (VType n i h to bto cc bcc aud ob ac ta pu up ft de) =
     VType n i h to bto cc bcc aud ob ac ta pu up ft de #
     concat (map (\<lambda>e. case e of AsType t \<Rightarrow> subvalues t | _ \<Rightarrow> [])
       (elems to @ elems bto @ elems cc @ elems bcc @ elems aud @ elems ob @ elems ac @ elems ta))"
  by pat_completeness auto
termination
  by (relation "measure size") (auto dest!: size_embedded_elems)

definition hiddenRecipients :: "'u vtype \<Rightarrow> 'u elem list" where
  "hiddenRecipients t = elems (btoP t) @ elems (bccP t)"


section \<open>toTombstone\<close>

text \<open>
  Modelled from the spec: \<^verbatim>\<open>streams.NewActivityStreamsTombstone\<close>, the constructor of the
  generated vocabulary, which is not among the sources. A Tombstone carries \<open>id\<close>,
  \<open>formerType\<close>, \<open>published\<close>, \<open>updated\<close> and \<open>deleted\<close>; it is an Object, so it
  has the five addressing properties, and it has no \<open>href\<close>, \<open>object\<close>, \<open>actor\<close> or
  \<open>target\<close>. A new one has its type name and nothing set.
\<close>

definition NewActivityStreamsTombstone :: "'u vtype" where
  "NewActivityStreamsTombstone =
     VType ''Tombstone'' None Absent Unset Unset Unset Unset Unset Absent Absent Absent
       Unset Unset Unset Unset"

definition toTombstone :: "'u vtype \<Rightarrow> 'u \<Rightarrow> int \<Rightarrow> 'u vtype" where
  "toTombstone obj i now =
     (let tomb = NewActivityStreamsTombstone;
          tomb = SetActivityStreamsId i tomb;
          tomb = SetActivityStreamsFormerType ([] @ [typeName obj]) tomb;
          tomb = (case publishedP obj of
                    Has pub \<Rightarrow> SetActivityStreamsPublished pub tomb
                  | _ \<Rightarrow> tomb);
          tomb = (case updatedP obj of
                    Has upd \<Rightarrow> SetActivityStreamsUpdated upd tomb
                  | _ \<Rightarrow> tomb)
      in SetActivityStreamsDeleted now tomb)"

section \<open>mustHaveActivityActorsMatchObjectActors\<close>

text \<open>The first loop: the id string of every actor of the activity is marked.\<close>

fun activityActors ::
  "('u \<Rightarrow> string) \<Rightarrow> (string \<Rightarrow> bool) \<Rightarrow> 'u elem list \<Rightarrow> error + (string \<Rightarrow> bool)" where
  "activityActors str activityActorMap [] = Inr activityActorMap"
| "activityActors str activityActorMap (iter # rest) =
     (case ToId iter of
        Inl err \<Rightarrow> Inl err
      | Inr u \<Rightarrow> activityActors str (activityActorMap(str u := True)) rest)"

text \<open>The inner loop over the actors of one object.\<close>

fun objectActors ::
  "('u \<Rightarrow> string) \<Rightarrow> (string \<Rightarrow> bool) \<Rightarrow> 'u elem list \<Rightarrow> error option" where
  "objectActors str activityActorMap [] = None"
| "objectActors str activityActorMap (iter # rest) =
     (case ToId iter of
        Inl err \<Rightarrow> Some err
      | Inr u \<Rightarrow>
          if \<not> activityActorMap (str u) then Some ErrActorsMismatch
          else objectActors str activityActorMap rest)"

text \<open>
  The loop over the \<open>object\<close> property. \<open>deref\<close> stands for the chain
  \<^verbatim>\<open>newTransport\<close>, \<^verbatim>\<open>Dereference\<close>, \<^verbatim>\<open>json.Unmarshal\<close>, \<^verbatim>\<open>streams.ToType\<close> on the IRI, each of
  which can fail. The \<^verbatim>\<open>else\<close> branch is taken by every element that is not an IRI without
  a value, an element that holds a value included. Calling \<^verbatim>\<open>Begin\<close> on an \<open>actor\<close>
  property that is nil panics.
\<close>

fun objectsLoop ::
  "('u \<Rightarrow> string) \<Rightarrow> ('u \<Rightarrow> error + 'u vtype) \<Rightarrow> (string \<Rightarrow> bool) \<Rightarrow> 'u elem list \<Rightarrow> error option"
where
  "objectsLoop str deref activityActorMap [] = None"
| "objectsLoop str deref activityActorMap (iter # rest) =
     (case (case iter of
              AsIRI iri \<Rightarrow> deref iri
            | AsType t \<Rightarrow> Inl ErrNeitherValueNorIRI
            | AsOther \<Rightarrow> Inl ErrNeitherValueNorIRI) of
        Inl err \<Rightarrow> Some err
      | Inr t \<Rightarrow>
          (case actorP t of
             Absent \<Rightarrow> Some ErrNoActorProperty
           | Unset \<Rightarrow> Some ErrNilDereference
           | Has objActors \<Rightarrow>
               (case objectActors str activityActorMap objActors of
                  Some err \<Rightarrow> Some err
                | None \<Rightarrow> objectsLoop str deref activityActorMap rest)))"

definition mustHaveActivityActorsMatchObjectActors ::
  "('u \<Rightarrow> string) \<Rightarrow> ('u \<Rightarrow> error + 'u vtype) \<Rightarrow> 'u elem list \<Rightarrow> 'u elem list \<Rightarrow> error option"
where
  "mustHaveActivityActorsMatchObjectActors str deref actors op =
     (case activityActors str (\<lambda>_. False) actors of
        Inl err \<Rightarrow> Some err
      | Inr activityActorMap \<Rightarrow> objectsLoop str deref activityActorMap op)"

section \<open>serialize\<close>

text \<open>
  What \<^verbatim>\<open>Serialize\<close> returns and \<^verbatim>\<open>encoding/json\<close> marshals: a \<^verbatim>\<open>map[string]interface{}\<close>
  is a \<open>JObject\<close>, a \<^verbatim>\<open>[]interface{}\<close> a \<open>JArray\<close>, a \<^verbatim>\<open>map[string]string\<close> a
  \<open>JStringMap\<close>; \<open>JOther\<close> is any other value (a number, a boolean). Maps are trees:
  no map is shared between two places.
\<close>

datatype json =
    JNull
  | JString string
  | JArray "json list"
  | JObject "(string \<times> json) list"
  | JStringMap "(string \<times> string) list"
  | JOther












section \<open>normalizeRecipients\<close>

text \<open>
  A \<^verbatim>\<open>vocab.ActivityStreamsCreate\<close>: its type has the five addressing accessors and the
  \<open>object\<close> accessor; each returns nil (\<open>None\<close>) or a property.
\<close>

record 'u ActivityStreamsCreate =
  ActivityStreamsTo :: "'u elem list option"
  ActivityStreamsBto :: "'u elem list option"
  ActivityStreamsCc :: "'u elem list option"
  ActivityStreamsBcc :: "'u elem list option"
  ActivityStreamsAudience :: "'u elem list option"
  ActivityStreamsObject :: "'u elem list option"

text \<open>
  The source repeats every step for \<open>to\<close>, \<open>bto\<close>, \<open>cc\<close>, \<open>bcc\<close> and \<open>audience\<close>, in this
  order; the model runs each step over the list \<open>dimensions\<close>, with the accessors chosen
  by the dimension.
\<close>

definition dimensions :: "dim list" where
  "dimensions = [To, Bto, Cc, Bcc, Audience]"

fun getActivity :: "dim \<Rightarrow> 'u ActivityStreamsCreate \<Rightarrow> 'u elem list option" where
  "getActivity To a = ActivityStreamsTo a"
| "getActivity Bto a = ActivityStreamsBto a"
| "getActivity Cc a = ActivityStreamsCc a"
| "getActivity Bcc a = ActivityStreamsBcc a"
| "getActivity Audience a = ActivityStreamsAudience a"

fun setActivity :: "dim \<Rightarrow> 'u elem list \<Rightarrow> 'u ActivityStreamsCreate \<Rightarrow> 'u ActivityStreamsCreate" where
  "setActivity To p a = a\<lparr>ActivityStreamsTo := Some p\<rparr>"
| "setActivity Bto p a = a\<lparr>ActivityStreamsBto := Some p\<rparr>"
| "setActivity Cc p a = a\<lparr>ActivityStreamsCc := Some p\<rparr>"
| "setActivity Bcc p a = a\<lparr>ActivityStreamsBcc := Some p\<rparr>"
| "setActivity Audience p a = a\<lparr>ActivityStreamsAudience := Some p\<rparr>"

fun getObject :: "dim \<Rightarrow> 'u vtype \<Rightarrow> 'u elem list slot" where
  "getObject To t = toP t"
| "getObject Bto t = btoP t"
| "getObject Cc t = ccP t"
| "getObject Bcc t = bccP t"
| "getObject Audience t = audienceP t"

fun setObject :: "dim \<Rightarrow> 'u elem list \<Rightarrow> 'u vtype \<Rightarrow> 'u vtype" where
  "setObject To p t = SetActivityStreamsTo p t"
| "setObject Bto p t = SetActivityStreamsBto p t"
| "setObject Cc p t = SetActivityStreamsCc p t"
| "setObject Bcc p t = SetActivityStreamsBcc p t"
| "setObject Audience p t = SetActivityStreamsAudience p t"

text \<open>
  A property of the activity that is nil is replaced by a new, empty one before it is
  read.
\<close>

definition orNew :: "'a list option \<Rightarrow> 'a list" where
  "orNew p = (case p of None \<Rightarrow> [] | Some xs \<Rightarrow> xs)"

text \<open>
  \<^verbatim>\<open>for iter := p.Begin(); iter != p.End(); iter = iter.Next()\<close> with the body
  \<^verbatim>\<open>id, err := ToId(iter); if err != nil { return err }; m[id.String()] = id\<close>.
\<close>

fun collectIds ::
  "('u \<Rightarrow> string) \<Rightarrow> (string \<times> 'u) list \<Rightarrow> 'u elem list \<Rightarrow> error + (string \<times> 'u) list" where
  "collectIds str m [] = Inr m"
| "collectIds str m (iter # rest) =
     (case ToId iter of
        Inl err \<Rightarrow> Inl err
      | Inr u \<Rightarrow> collectIds str (AList.update (str u) u m) rest)"

text \<open>Phase 0: the map of every addressing property of the activity.\<close>

fun actorMaps ::
  "('u \<Rightarrow> string) \<Rightarrow> 'u ActivityStreamsCreate \<Rightarrow> dim list \<Rightarrow> error + (dim \<Rightarrow> (string \<times> 'u) list)"
where
  "actorMaps str a [] = Inr (\<lambda>_. [])"
| "actorMaps str a (D # Ds) =
     (case collectIds str [] (orNew (getActivity D a)) of
        Inl err \<Rightarrow> Inl err
      | Inr m \<Rightarrow>
          (case actorMaps str a Ds of
             Inl err \<Rightarrow> Inl err
           | Inr ms \<Rightarrow> Inr (ms(D := m))))"

text \<open>
  Phase 1 for the object at index \<open>i\<close>, whose value is \<open>t\<close>: a value without the accessor
  is an error; a property that is nil is replaced by a new, empty one.
\<close>

fun objectMaps ::
  "('u \<Rightarrow> string) \<Rightarrow> nat \<Rightarrow> 'u vtype \<Rightarrow> dim list \<Rightarrow> error + (dim \<Rightarrow> (string \<times> 'u) list)"
where
  "objectMaps str i t [] = Inr (\<lambda>_. [])"
| "objectMaps str i t (D # Ds) =
     (case getObject D t of
        Absent \<Rightarrow> Inl (ErrCreateObjectNoProp i D)
      | p \<Rightarrow>
          (case collectIds str [] (elems p) of
             Inl err \<Rightarrow> Inl err
           | Inr m \<Rightarrow>
               (case objectMaps str i t Ds of
                  Inl err \<Rightarrow> Inl err
                | Inr ms \<Rightarrow> Inr (ms(D := m)))))"

text \<open>
  \<^verbatim>\<open>for k, v := range from { if _, ok := have[k]; !ok { p.AppendIRI(v) } }\<close>: the elements
  appended to \<open>p\<close>.
\<close>

definition missing ::
  "((string \<times> 'u) list \<Rightarrow> (string \<times> 'u) list) \<Rightarrow> (string \<times> 'u) list \<Rightarrow> (string \<times> 'u) list \<Rightarrow> 'u elem list"
where
  "missing rng from have =
     map (\<lambda>(k, v). AsIRI v) (filter (\<lambda>(k, v). map_of have k = None) (rng from))"

text \<open>
  Phases 1 and 2 for the element at index \<open>i\<close>. The assertion \<^verbatim>\<open>iter.GetType().(toer)\<close>
  fails on an element that holds no value. The result is the element afterwards and the
  maps of the recipients the object had before.
\<close>

definition normalizeObject ::
  "('u \<Rightarrow> string) \<Rightarrow> ((string \<times> 'u) list \<Rightarrow> (string \<times> 'u) list) \<Rightarrow> (dim \<Rightarrow> (string \<times> 'u) list) \<Rightarrow>
   nat \<Rightarrow> 'u elem \<Rightarrow> error + ('u elem \<times> (dim \<Rightarrow> (string \<times> 'u) list))" where
  "normalizeObject str rng actorMap i iter =
     (case iter of
        AsType t \<Rightarrow>
          (case objectMaps str i t dimensions of
             Inl err \<Rightarrow> Inl err
           | Inr objs \<Rightarrow>
               Inr (AsType (foldl (\<lambda>t D. setObject D
                                      (elems (getObject D t) @ missing rng (actorMap D) (objs D)) t)
                                  t dimensions),
                    objs))
      | _ \<Rightarrow> Inl (ErrCreateObjectNoProp i To))"

text \<open>\<^verbatim>\<open>for i := 0; i < o.Len(); i++\<close>\<close>

fun objectsLoopN ::
  "('u \<Rightarrow> string) \<Rightarrow> ((string \<times> 'u) list \<Rightarrow> (string \<times> 'u) list) \<Rightarrow> (dim \<Rightarrow> (string \<times> 'u) list) \<Rightarrow>
   nat \<Rightarrow> 'u elem list \<Rightarrow> error + ('u elem list \<times> (dim \<Rightarrow> (string \<times> 'u) list) list)" where
  "objectsLoopN str rng actorMap i [] = Inr ([], [])"
| "objectsLoopN str rng actorMap i (iter # rest) =
     (case normalizeObject str rng actorMap i iter of
        Inl err \<Rightarrow> Inl err
      | Inr (iter', objs) \<Rightarrow>
          (case objectsLoopN str rng actorMap (Suc i) rest of
             Inl err \<Rightarrow> Inl err
           | Inr (rest', objss) \<Rightarrow> Inr (iter' # rest', objs # objss)))"

text \<open>
  \<^verbatim>\<open>normalizeRecipients\<close>. Calling \<^verbatim>\<open>Len\<close> on an \<open>object\<close> property that is nil panics. Phase 3
  appends to every property of the activity what each object had and the activity had
  not. The result is the activity afterwards; what an error return leaves behind of the
  changes made so far is not part of the model.
\<close>

definition normalizeRecipients ::
  "('u \<Rightarrow> string) \<Rightarrow> ((string \<times> 'u) list \<Rightarrow> (string \<times> 'u) list) \<Rightarrow>
   'u ActivityStreamsCreate \<Rightarrow> error + 'u ActivityStreamsCreate" where
  "normalizeRecipients str rng a =
     (case actorMaps str a dimensions of
        Inl err \<Rightarrow> Inl err
      | Inr actorMap \<Rightarrow>
          (case ActivityStreamsObject a of
             None \<Rightarrow> Inl ErrNilDereference
           | Some ob \<Rightarrow>
               (case objectsLoopN str rng actorMap 0 ob of
                  Inl err \<Rightarrow> Inl err
                | Inr (ob', objss) \<Rightarrow>
                    Inr (foldl (\<lambda>a D. setActivity D
                                  (orNew (getActivity D a) @
                                   concat (map (\<lambda>objs. missing rng (objs D) (actorMap D)) objss)) a)
                               (a\<lparr>ActivityStreamsObject := Some ob'\<rparr>) dimensions))))"

text \<open>The id strings of the elements of a property.\<close>

definition idStrings :: "('u \<Rightarrow> string) \<Rightarrow> 'u elem list \<Rightarrow> string set" where
  "idStrings str p = set (concat (map (\<lambda>e. case ToId e of Inr u \<Rightarrow> [str u] | Inl _ \<Rightarrow> []) p))"

text \<open>The elements of the property \<open>D\<close> of the value an element holds.\<close>

definition ofObject :: "dim \<Rightarrow> 'u elem \<Rightarrow> 'u elem list" where
  "ofObject D e = (case e of AsType t \<Rightarrow> elems (getObject D t) | _ \<Rightarrow> [])"

section \<open>The transport\<close>

text \<open>
  Byte slices live in a store of byte arrays, addressed by their index; \<^verbatim>\<open>make\<close> adds an
  array at the next address. A slice variable of the source is an address.
\<close>

type_synonym byte = "8 word"
type_synonym store = "byte list list"

definition isSuccess :: "int \<Rightarrow> bool" where
  "isSuccess code \<longleftrightarrow> code = 200 \<or> code = 201 \<or> code = 202"

record response =
  StatusCode :: int
  Status :: string
  RespBody :: "byte list"

text \<open>
  The fields of \<^verbatim>\<open>HttpSigTransport\<close> that \<^verbatim>\<open>Deliver\<close> uses. The collaborators act on a world
  \<open>'w\<close> that the model threads through every call.
  \<^item> \<open>client\<close> is \<^verbatim>\<open>client.Do\<close>: it is handed the request and with it the buffer of the
    body, whose bytes it may consume or change; it returns the bytes it leaves in the
    buffer and an error or a response.
  \<^item> \<open>clock\<close> is \<^verbatim>\<open>clock.Now().UTC().Format("Mon, 02 Jan 2006 15:04:05")\<close>.
  \<^item> \<open>postSigner\<close> is \<^verbatim>\<open>postSigner.SignRequest(privKey, pubKeyId, req)\<close>, which signs the
    header of the request: it returns the header afterwards and an error or nil. The two
    mutex calls around it have no effect on one sequential call.
\<close>

record 'w HttpSigTransport =
  client :: "'w \<Rightarrow> request \<Rightarrow> byte list \<Rightarrow> 'w \<times> byte list \<times> (error + response)"
  appAgent :: string
  gofedAgent :: string
  clock :: "'w \<Rightarrow> string"
  postSigner :: "'w \<Rightarrow> request \<Rightarrow> 'w \<times> (string \<Rightarrow> string list) \<times> error option"

text \<open>
  What \<^verbatim>\<open>Deliver\<close> takes from Go's library: \<^verbatim>\<open>to.String()\<close>, \<^verbatim>\<open>to.Host\<close>, the error of
  \<^verbatim>\<open>http.NewRequest\<close> for a method and a URL, and
  \<^verbatim>\<open>base64.StdEncoding.EncodeToString\<close> of \<^verbatim>\<open>sha256.Sum256\<close>.
\<close>

record 'u golib =
  urlString :: "'u \<Rightarrow> string"
  urlHost :: "'u \<Rightarrow> string"
  newRequestError :: "string \<Rightarrow> string \<Rightarrow> error option"
  sha256Base64 :: "byte list \<Rightarrow> string"

text \<open>\<^verbatim>\<open>copy(dst, src)\<close> on the contents of two arrays.\<close>

definition copyBytes :: "byte list \<Rightarrow> byte list \<Rightarrow> byte list" where
  "copyBytes dst src =
     take (min (length dst) (length src)) src @ drop (min (length dst) (length src)) dst"

text \<open>
  \<^verbatim>\<open>Deliver\<close>, from a world and a store to the world and the store afterwards and the error
  returned. \<open>b\<close> is the address of the caller's payload.
\<close>

definition Deliver ::
  "'w HttpSigTransport \<Rightarrow> 'u golib \<Rightarrow> 'w \<times> store \<Rightarrow> nat \<Rightarrow> 'u \<Rightarrow> ('w \<times> store) \<times> error option" where
  "Deliver h lib s b to =
     (case s of (w, st) \<Rightarrow>
        let byteCopy = length st;
            st = st @ [replicate (length (st ! b)) 0];
            st = st[byteCopy := copyBytes (st ! byteCopy) (st ! b)];
            buf = byteCopy
        in case newRequestError lib ''POST'' (urlString lib to) of
             Some err \<Rightarrow> ((w, st), Some err)
           | None \<Rightarrow>
               let req = \<lparr>Method = ''POST'', URL = urlString lib to, Header = (\<lambda>_. []), Body = buf\<rparr>;
                   req = Add ''Accept-Charset'' ''utf-8'' req;
                   req = Add ''Date'' (clock h w @ '' GMT'') req;
                   req = Add ''User-Agent'' (appAgent h @ '' '' @ gofedAgent h) req;
                   req = Add ''Host'' (urlHost lib to) req;
                   req = Add ''Accept'' ''application/activity+json'' req;
                   req = Add ''Digest'' (''SHA-256='' @ sha256Base64 lib (st ! b)) req
               in case postSigner h w req of
                    (w, hdr, Some err) \<Rightarrow> ((w, st), Some err)
                  | (w, hdr, None) \<Rightarrow>
                      (case client h w (req\<lparr>Header := hdr\<rparr>) (st ! buf) of
                         (w, left, Inl err) \<Rightarrow> ((w, st[buf := left]), Some err)
                       | (w, left, Inr resp) \<Rightarrow>
                           if \<not> isSuccess (StatusCode resp)
                           then ((w, st[buf := left]),
                                 Some (ErrPostFailed (urlString lib to) (StatusCode resp)
                                         (Status resp) (RespBody resp) (st[buf := left] ! byteCopy)))
                           else ((w, st[buf := left]), None)))"

subsection \<open>BatchDeliver\<close>

text \<open>
  One goroutine per recipient: it calls \<^verbatim>\<open>Deliver\<close> (\<open>Pending\<close>), sends the error on the
  channel when there is one (\<open>Sending\<close>), and is done (\<open>Finished\<close>, by the deferred
  \<^verbatim>\<open>wg.Done()\<close>). \<open>Finished\<close> keeps what \<^verbatim>\<open>Deliver\<close> returned.
\<close>

datatype 'u task = Pending 'u | Sending 'u error | Finished 'u "error option"

record ('w, 'u) batch =
  tasks :: "'u task list"
  errCh :: "error list"
  world :: 'w
  heap :: store

text \<open>
  One step of the goroutine \<open>i\<close>. The channel has the capacity \<^verbatim>\<open>len(recipients)\<close>; a send
  on a full channel blocks, and so does not step. A call of \<^verbatim>\<open>Deliver\<close> is one step.
\<close>

definition stepTask ::
  "'w HttpSigTransport \<Rightarrow> 'u golib \<Rightarrow> nat \<Rightarrow> nat \<Rightarrow> ('w, 'u) batch \<Rightarrow> ('w, 'u) batch" where
  "stepTask h lib b i s =
     (if i < length (tasks s) then
        (case tasks s ! i of
           Pending r \<Rightarrow>
             (case Deliver h lib (world s, heap s) b r of
                ((w, st), None) \<Rightarrow>
                  s\<lparr>tasks := (tasks s)[i := Finished r None], world := w, heap := st\<rparr>
              | ((w, st), Some err) \<Rightarrow>
                  s\<lparr>tasks := (tasks s)[i := Sending r err], world := w, heap := st\<rparr>)
         | Sending r err \<Rightarrow>
             if length (errCh s) < length (tasks s)
             then s\<lparr>errCh := errCh s @ [err], tasks := (tasks s)[i := Finished r (Some err)]\<rparr>
             else s
         | Finished r res \<Rightarrow> s)
      else s)"

definition isFinished :: "'u task \<Rightarrow> bool" where
  "isFinished t = (case t of Finished r res \<Rightarrow> True | _ \<Rightarrow> False)"

text \<open>
  The goroutines run in the order \<open>sched\<close>, a list of goroutine indices: every
  interleaving of their steps is such a list.
\<close>

definition runBatch ::
  "'w HttpSigTransport \<Rightarrow> 'u golib \<Rightarrow> nat list \<Rightarrow> 'w \<times> store \<Rightarrow> nat \<Rightarrow> 'u list \<Rightarrow> ('w, 'u) batch" where
  "runBatch h lib sched s b recipients =
     foldl (\<lambda>s i. stepTask h lib b i s)
       \<lparr>tasks = map Pending recipients, errCh = [], world = fst s, heap = snd s\<rparr> sched"

text \<open>
  The loop \<^verbatim>\<open>select { case e := <-errCh: errs = append(errs, e.Error()); default: break outer }\<close>
  on the buffered errors; \<open>Error\<close> is the method \<^verbatim>\<open>Error()\<close> of Go's errors.
\<close>

fun drain :: "(error \<Rightarrow> string) \<Rightarrow> error list \<Rightarrow> string list \<Rightarrow> string list" where
  "drain Error [] errs = errs"
| "drain Error (e # ch) errs = drain Error ch (errs @ [Error e])"

text \<open>\<^verbatim>\<open>strings.Join(elems, sep)\<close>\<close>

fun Join :: "string list \<Rightarrow> string \<Rightarrow> string" where
  "Join [] sep = []"
| "Join [x] sep = x"
| "Join (x # y # ys) sep = x @ sep @ Join (y # ys) sep"

text \<open>
  \<^verbatim>\<open>BatchDeliver\<close> under the schedule \<open>sched\<close>: \<open>None\<close> when \<^verbatim>\<open>wg.Wait()\<close> does not return
  because the schedule leaves a goroutine unfinished; otherwise the world and the store
  afterwards and the error returned.
\<close>

definition BatchDeliver ::
  "'w HttpSigTransport \<Rightarrow> 'u golib \<Rightarrow> (error \<Rightarrow> string) \<Rightarrow> nat list \<Rightarrow> 'w \<times> store \<Rightarrow> nat \<Rightarrow> 'u list \<Rightarrow>
   (('w \<times> store) \<times> error option) option" where
  "BatchDeliver h lib Error sched s b recipients =
     (let s1 = runBatch h lib sched s b recipients in
      if list_all isFinished (tasks s1) then
        (let errs = drain Error (errCh s1) [] in
         Some ((world s1, heap s1),
               if length errs > 0
               then Some (ErrBatchDeliver (Join errs ''; ''))
               else None))
      else None)"

text \<open>
  To speak of the payload a recipient is sent, the transport is instrumented: the world
  carries a log, and the client appends to it the URL and the bytes of every request it
  is handed.
\<close>

definition observed :: "'w HttpSigTransport \<Rightarrow> ('w \<times> (string \<times> byte list) list) HttpSigTransport" where
  "observed h =
     \<lparr>client = (\<lambda>(w, log) req body.
                  case client h w req body of
                    (w', left, r) \<Rightarrow> ((w', log @ [(URL req, body)]), left, r)),
      appAgent = appAgent h,
      gofedAgent = gofedAgent h,
      clock = (\<lambda>(w, log). clock h w),
      postSigner = (\<lambda>(w, log) req.
                  case postSigner h w req of (w', hdr, e) \<Rightarrow> ((w', log), hdr, e))\<rparr>"

section \<open>Auxiliary functions and example values\<close>

text \<open>
  The elements of a list whose key is neither in \<open>S\<close> nor the key of an earlier element:
  the recursive form of \<open>firstOccurrences\<close>, used to reason about both deduplication loops.
\<close>

fun unseenFirst :: "('a \<Rightarrow> 'k) \<Rightarrow> 'k set \<Rightarrow> 'a list \<Rightarrow> 'a list" where
  "unseenFirst key S [] = []"
| "unseenFirst key S (x # xs) =
     (if key x \<in> S then unseenFirst key S xs else x # unseenFirst key (insert (key x) S) xs)"

definition exNote :: "string \<Rightarrow> string elem" where
  "exNote i = AsType (VType ''Note'' (Some i) Absent Unset Unset Unset Unset Unset
                        Absent Absent Absent Unset Unset Absent Absent)"

definition ldJsonHeader :: string where
  "ldJsonHeader = ''application/ld+json; '' @ profileQuoted @ ''; charset=utf-8''"

definition exCollection :: "string vtype" where
  "exCollection =
     VType ''Collection'' (Some ''https://a.example/a/circle'') Absent
       (Has []) (Has [AsIRI ''https://c.example/c'']) (Has []) (Has []) (Has [])
       Absent Absent Absent Unset Unset Absent Absent"

definition exAdd :: "string vtype" where
  "exAdd =
     VType ''Add'' (Some ''https://a.example/act/2'') Absent
       (Has [AsIRI ''https://b.example/b'']) (Has [AsIRI ''https://d.example/d'']) (Has []) (Has []) (Has [])
       (Has [exNote ''https://a.example/note/1'']) (Has [AsIRI ''https://a.example/a''])
       (Has [AsType exCollection]) Unset Unset Absent Absent"

definition exHiddenNote :: "string vtype" where
  "exHiddenNote =
     VType ''Note'' (Some ''https://a.example/note/7'') Absent
       (Has [AsIRI ''https://b.example/b'']) (Has [AsIRI ''https://c.example/c'']) Unset
       (Has [AsIRI ''https://d.example/d'']) Unset
       Absent Absent Absent (Has 1500000000) Unset Absent Absent"

definition exCreate :: "string vtype" where
  "exCreate =
     VType ''Create'' (Some ''https://a.example/act/1'') Absent
       (Has [AsIRI ''https://b.example/b'']) (Has [AsIRI ''https://c.example/c'']) Unset
       Unset Unset
       (Has [AsType exHiddenNote, AsIRI ''https://a.example/note/8''])
       (Has [AsIRI ''https://a.example/a'']) Absent Unset Unset Absent Absent"

definition exFollow :: "string vtype" where
  "exFollow =
     VType ''Follow'' (Some ''https://a.example/act/1'') Absent
       Unset Unset Unset Unset Unset
       (Has [AsIRI ''https://b.example/b''])
       (Has [AsIRI ''https://a.example/a'']) Unset Unset Unset Absent Absent"

definition exDeref :: "string \<Rightarrow> error + string vtype" where
  "exDeref iri = (if iri = ''https://a.example/act/1'' then Inr exFollow
                  else Inl (ErrExternal ''GET request failed''))"







definition exNoteTo :: "string \<Rightarrow> string list \<Rightarrow> string list \<Rightarrow> string elem" where
  "exNoteTo i to cc =
     AsType (VType ''Note'' (Some i) Absent (Has (map AsIRI to)) Unset (Has (map AsIRI cc)) Unset Unset
               Absent Absent Absent Unset Unset Absent Absent)"

definition exCreateA :: "string ActivityStreamsCreate" where
  "exCreateA = \<lparr>ActivityStreamsTo = Some [AsIRI ''https://b.example/b''],
                ActivityStreamsBto = None, ActivityStreamsCc = Some [AsIRI ''https://c.example/c''],
                ActivityStreamsBcc = None, ActivityStreamsAudience = None,
                ActivityStreamsObject =
                  Some [exNoteTo ''https://a.example/note/1'' [''https://d.example/d''] [''https://c.example/c''],
                        exNoteTo ''https://a.example/note/2'' [''https://b.example/b'', ''https://e.example/e''] []]\<rparr>"

definition exNormalized :: "string ActivityStreamsCreate" where
  "exNormalized =
     \<lparr>ActivityStreamsTo = Some [AsIRI ''https://b.example/b'', AsIRI ''https://d.example/d'',
                                 AsIRI ''https://e.example/e''],
      ActivityStreamsBto = Some [], ActivityStreamsCc = Some [AsIRI ''https://c.example/c''],
      ActivityStreamsBcc = Some [], ActivityStreamsAudience = Some [],
      ActivityStreamsObject =
        Some [AsType (VType ''Note'' (Some ''https://a.example/note/1'') Absent
                (Has [AsIRI ''https://d.example/d'', AsIRI ''https://b.example/b'']) (Has [])
                (Has [AsIRI ''https://c.example/c'']) (Has []) (Has [])
                Absent Absent Absent Unset Unset Absent Absent),
              AsType (VType ''Note'' (Some ''https://a.example/note/2'') Absent
                (Has [AsIRI ''https://b.example/b'', AsIRI ''https://e.example/e'']) (Has [])
                (Has [AsIRI ''https://c.example/c'']) (Has []) (Has [])
                Absent Absent Absent Unset Unset Absent Absent)]\<rparr>"

definition exCreateNoObject :: "string ActivityStreamsCreate" where
  "exCreateNoObject =
     \<lparr>ActivityStreamsTo = Some [AsIRI ''https://b.example/b''],
      ActivityStreamsBto = None, ActivityStreamsCc = None,
      ActivityStreamsBcc = None, ActivityStreamsAudience = None,
      ActivityStreamsObject = Some []\<rparr>"

text \<open>Every key of a map of recipients is the string of its value.\<close>

definition keyed :: "('u \<Rightarrow> string) \<Rightarrow> (string \<times> 'u) list \<Rightarrow> bool" where
  "keyed str m \<longleftrightarrow> (\<forall>(k, v) \<in> set m. k = str v)"

subsection \<open>The transport\<close>

text \<open>The recipient of a goroutine.\<close>

definition recipientOf :: "'u task \<Rightarrow> 'u" where
  "recipientOf t = (case t of Pending r \<Rightarrow> r | Sending r e \<Rightarrow> r | Finished r res \<Rightarrow> r)"

text \<open>What \<^verbatim>\<open>Deliver\<close> returned to a goroutine that has called it.\<close>

definition outcomeOf :: "'u task \<Rightarrow> error option" where
  "outcomeOf t = (case t of Pending r \<Rightarrow> None | Sending r e \<Rightarrow> Some e | Finished r res \<Rightarrow> res)"

definition errorsOf :: "'u task list \<Rightarrow> error list" where
  "errorsOf ts = concat (map (\<lambda>t. case t of Finished r (Some e) \<Rightarrow> [e] | _ \<Rightarrow> []) ts)"

definition stage :: "'u task \<Rightarrow> nat" where
  "stage t = (case t of Pending r \<Rightarrow> 0 | Sending r e \<Rightarrow> 1 | Finished r res \<Rightarrow> 2)"

text \<open>
  What holds of every state of a batch: the goroutines are those of the recipients, in
  their order; the channel holds the errors of the goroutines that are done, each once;
  and what a goroutine holds as the result of its call is the result of a call of
  \<^verbatim>\<open>Deliver\<close> for its recipient.
\<close>

definition batchInv ::
  "'w HttpSigTransport \<Rightarrow> 'u golib \<Rightarrow> nat \<Rightarrow> 'u list \<Rightarrow> ('w, 'u) batch \<Rightarrow> bool" where
  "batchInv h lib b recipients s \<longleftrightarrow>
     map recipientOf (tasks s) = recipients \<and>
     mset (errCh s) = mset (errorsOf (tasks s)) \<and>
     (\<forall>t \<in> set (tasks s). stage t = 0 \<or>
        (\<exists>w st. snd (Deliver h lib (w, st) b (recipientOf t)) = outcomeOf t))"

text \<open>The payload is in the store and so are all logged payloads equal to it.\<close>

definition payloadInv ::
  "store \<Rightarrow> nat \<Rightarrow> ('w \<times> (string \<times> byte list) list, 'u) batch \<Rightarrow> bool" where
  "payloadInv st0 b s \<longleftrightarrow>
     (\<exists>ext. heap s = st0 @ ext) \<and> (\<forall>(u, p) \<in> set (snd (world s)). p = st0 ! b)"

definition exTransport :: "nat HttpSigTransport" where
  "exTransport =
     \<lparr>client = (\<lambda>w req body.
        (Suc w, body,
         if URL req = ''https://b.example/inbox''
         then Inr \<lparr>StatusCode = 202, Status = ''202 Accepted'', RespBody = []\<rparr>
         else if URL req = ''https://c.example/inbox''
         then Inr \<lparr>StatusCode = 500, Status = ''500 Internal Server Error'', RespBody = []\<rparr>
         else Inl (ErrExternal ''no such host''))),
      appAgent = ''app'',
      gofedAgent = ''go-fed'',
      clock = (\<lambda>w. ''Mon, 02 Jan 2006 15:04:05''),
      postSigner = (\<lambda>w req. (w, (Header req)(''Signature'' := [''sig'']), None))\<rparr>"

definition exLib :: "string golib" where
  "exLib = \<lparr>urlString = id, urlHost = (\<lambda>u. ''host''),
            newRequestError = (\<lambda>m u. None), sha256Base64 = (\<lambda>bs. ''digest'')\<rparr>"

definition exError :: "error \<Rightarrow> string" where
  "exError e =
     (case e of
        ErrExternal s \<Rightarrow> s
      | ErrPostFailed url code status body payload \<Rightarrow> ''POST to '' @ url @ '' failed: '' @ status
      | _ \<Rightarrow> ''error'')"

definition exRecipients :: "string list" where
  "exRecipients = [''https://b.example/inbox'', ''https://c.example/inbox'', ''https://d.example/inbox'']"

chapter \<open>Properties\<close>

section \<open>First occurrences\<close>

lemma map_filter_cong:
  "(\<And>j. j \<in> set l \<Longrightarrow> P j = Q j) \<Longrightarrow> map f (filter P l) = map f (filter Q l)"
  by (induction l) auto

lemma unseenFirst_index:
  "unseenFirst key S xs =
     map (\<lambda>j. xs ! j) (filter (\<lambda>j. key (xs ! j) \<notin> S \<union> key ` set (take j xs)) [0..<length xs])"
proof (induction xs arbitrary: S)
  case Nil
  then show ?case by simp
next
  case (Cons x xs)
  have upt: "[0..<length (x # xs)] = 0 # map Suc [0..<length xs]"
    by (simp add: upt_conv_Cons map_Suc_upt del: upt_Suc)
  have R: "map ((!) (x # xs))
             (filter (\<lambda>j. key ((x # xs) ! j) \<notin> S \<union> key ` set (take j (x # xs)))
                (map Suc [0..<length xs])) =
           unseenFirst key (insert (key x) S) xs"
    unfolding Cons.IH [of "insert (key x) S"]
    by (simp add: filter_map comp_def) (rule map_filter_cong, auto)
  show ?case
  proof (cases "key x \<in> S")
    case True
    then have "insert (key x) S = S" by auto
    with True R show ?thesis
      unfolding upt by simp
  next
    case False
    with R show ?thesis
      unfolding upt by simp
  qed
qed

lemma firstOccurrences_unseenFirst: "firstOccurrences key xs = unseenFirst key {} xs"
  by (simp add: firstOccurrences_def unseenFirst_index)

lemma unseenFirst_keys: "key ` set (unseenFirst key S xs) = key ` set xs - S"
  by (induction xs arbitrary: S) auto

lemma unseenFirst_distinct: "distinct (map key (unseenFirst key S xs))"
proof (induction xs arbitrary: S)
  case Nil
  then show ?case by simp
next
  case (Cons x xs)
  then show ?case by (auto simp: unseenFirst_keys)
qed

lemma unseenFirst_filter:
  "unseenFirst key (I \<union> S) xs = unseenFirst key S (filter (\<lambda>u. key u \<notin> I) xs)"
  by (induction xs arbitrary: S) (auto simp: Un_insert_right [symmetric] simp del: Un_insert_right)

section \<open>dedupeIRIs\<close>

lemma ignoredMap_fold:
  "foldl (\<lambda>m elem. m(str elem := True)) m0 ignored s \<longleftrightarrow> m0 s \<or> s \<in> str ` set ignored"
  by (induction ignored arbitrary: m0) auto

lemma dedupeIRIsLoop_unseenFirst:
  "dedupeIRIsLoop str ignoredMap outMap out rest =
     out @ unseenFirst str (Collect ignoredMap \<union> Collect outMap) rest"
proof (induction rest arbitrary: outMap out)
  case Nil
  then show ?case by simp
next
  case (Cons k rest)
  show ?case
  proof (cases "\<not> ignoredMap (str k) \<and> \<not> outMap (str k)")
    case True
    have s: "Collect ignoredMap \<union> Collect (outMap(str k := True)) =
             insert (str k) (Collect ignoredMap \<union> Collect outMap)"
      using True by (auto split: if_splits)
    have "dedupeIRIsLoop str ignoredMap outMap out (k # rest) =
          dedupeIRIsLoop str ignoredMap (outMap(str k := True)) (out @ [k]) rest"
      using True by (simp add: Let_def)
    also have "\<dots> = (out @ [k]) @
          unseenFirst str (Collect ignoredMap \<union> Collect (outMap(str k := True))) rest"
      by (rule Cons.IH)
    also have "\<dots> = out @ unseenFirst str (Collect ignoredMap \<union> Collect outMap) (k # rest)"
      unfolding s using True by simp
    finally show ?thesis .
  next
    case False
    then show ?thesis by (auto simp: Let_def Cons.IH)
  qed
qed

text \<open>
  C9. \<open>dedupeIRIs\<close> returns the first occurrence of every IRI string that is not the
  string of an ignored IRI, in the order of the input; no two entries of the result have
  the same string, and no entry has the string of an ignored IRI.
\<close>

theorem dedupeIRIs_first_occurrences:
  "dedupeIRIs str recipients ignored =
     firstOccurrences str (filter (\<lambda>u. str u \<notin> str ` set ignored) recipients)
   \<and> distinct (map str (dedupeIRIs str recipients ignored))
   \<and> str ` set (dedupeIRIs str recipients ignored) \<inter> str ` set ignored = {}"
proof -
  have ig: "Collect (foldl (\<lambda>m elem. m(str elem := True)) (\<lambda>_. False) ignored) = str ` set ignored"
    by (auto simp: ignoredMap_fold)
  have eq: "dedupeIRIs str recipients ignored = unseenFirst str (str ` set ignored) recipients"
    by (simp add: dedupeIRIs_def dedupeIRIsLoop_unseenFirst ig)
  have "unseenFirst str (str ` set ignored \<union> {}) recipients =
        unseenFirst str {} (filter (\<lambda>u. str u \<notin> str ` set ignored) recipients)"
    by (rule unseenFirst_filter)
  then have a: "dedupeIRIs str recipients ignored =
     firstOccurrences str (filter (\<lambda>u. str u \<notin> str ` set ignored) recipients)"
    by (simp add: eq firstOccurrences_unseenFirst)
  have b: "distinct (map str (dedupeIRIs str recipients ignored))"
    by (simp add: eq unseenFirst_distinct)
  have c: "str ` set (dedupeIRIs str recipients ignored) \<inter> str ` set ignored = {}"
    by (auto simp: eq unseenFirst_keys)
  from a b c show ?thesis by blast
qed

theorem dedupeIRIs_first_occurrences_witness:
  "dedupeIRIs fst [(''a'', 1::nat), (''b'', 2), (''a'', 3), (''c'', 4), (''b'', 5)] [(''c'', 9)]
     = [(''a'', 1), (''b'', 2)]
   \<and> firstOccurrences fst (filter (\<lambda>u. fst u \<notin> fst ` set [(''c'', 9::nat)])
        [(''a'', 1::nat), (''b'', 2), (''a'', 3), (''c'', 4), (''b'', 5)]) = [(''a'', 1), (''b'', 2)]
   \<and> distinct (map fst [(''a'', 1::nat), (''b'', 2)])"
proof -
  have e: "dedupeIRIs fst [(''a'', 1::nat), (''b'', 2), (''a'', 3), (''c'', 4), (''b'', 5)] [(''c'', 9)]
     = [(''a'', 1), (''b'', 2)]"
    by (simp add: dedupeIRIs_def Let_def)
  from dedupeIRIs_first_occurrences [of fst
      "[(''a'', 1::nat), (''b'', 2), (''a'', 3), (''c'', 4), (''b'', 5)]" "[(''c'', 9)]"]
  show ?thesis unfolding e by (simp add: firstOccurrences_unseenFirst)
qed

section \<open>dedupeOrderedItems\<close>

lemma Remove_take: "i < length xs \<Longrightarrow> take i (Remove i xs) = take i xs"
  by (simp add: Remove_def)

lemma Remove_drop: "i < length xs \<Longrightarrow> drop i (Remove i xs) = drop (Suc i) xs"
  by (simp add: Remove_def)

lemma Remove_length: "i < length xs \<Longrightarrow> length (Remove i xs) = length xs - 1"
  by (simp add: Remove_def)

lemma loop_id_elemKey:
  "(case e of AsType asType \<Rightarrow> GetId asType | AsIRI iri \<Rightarrow> Inr iri | AsOther \<Rightarrow> Inl (ErrElementNoId i)) = Inr u
     \<longleftrightarrow> ToId e = Inr u"
  by (cases e) auto

lemma dedupeOrderedItemsLoop_ok:
  "i \<le> length oi \<Longrightarrow> \<forall>e \<in> set (drop i oi). elemKey str e \<noteq> None \<Longrightarrow>
   dedupeOrderedItemsLoop str seen i oi =
     (take i oi @ unseenFirst (elemKey str) (Some ` Collect seen) (drop i oi), None)"
proof (induction str seen i oi rule: dedupeOrderedItemsLoop.induct)
  case (1 str seen i oi)
  show ?case
  proof (cases "i < length oi")
    case False
    with "1.prems" show ?thesis by (subst dedupeOrderedItemsLoop.simps) simp
  next
    case True
    then have dr: "drop i oi = oi ! i # drop (Suc i) oi"
      by (simp add: Cons_nth_drop_Suc)
    with "1.prems" have "elemKey str (oi ! i) \<noteq> None" by simp
    then obtain u where u: "ToId (oi ! i) = Inr u"
      by (auto simp: elemKey_def split: sum.splits)
    then have c: "(case oi ! i of AsType asType \<Rightarrow> GetId asType | AsIRI iri \<Rightarrow> Inr iri
                   | AsOther \<Rightarrow> Inl (ErrElementNoId i)) = Inr u"
      by (simp add: loop_id_elemKey)
    have k: "elemKey str (oi ! i) = Some (str u)"
      using u by (simp add: elemKey_def)
    show ?thesis
    proof (cases "seen (str u)")
      case seen: True
      have "dedupeOrderedItemsLoop str seen i oi = dedupeOrderedItemsLoop str seen i (Remove i oi)"
        using True c seen by (subst dedupeOrderedItemsLoop.simps) simp
      also have "\<dots> = (take i (Remove i oi) @
           unseenFirst (elemKey str) (Some ` Collect seen) (drop i (Remove i oi)), None)"
        using True c seen "1.prems" dr
        by (intro "1.IH"(1) [OF True c seen]) (auto simp: Remove_length Remove_drop)
      also have "\<dots> = (take i oi @ unseenFirst (elemKey str) (Some ` Collect seen) (drop i oi), None)"
        using True seen k by (simp add: Remove_take Remove_drop dr)
      finally show ?thesis .
    next
      case unseen: False
      have s: "Some ` Collect (seen(str u := True)) = insert (Some (str u)) (Some ` Collect seen)"
        by (auto split: if_splits)
      have "dedupeOrderedItemsLoop str seen i oi =
            dedupeOrderedItemsLoop str (seen(str u := True)) (Suc i) oi"
        using True c unseen by (subst dedupeOrderedItemsLoop.simps) simp
      also have "\<dots> = (take (Suc i) oi @
           unseenFirst (elemKey str) (Some ` Collect (seen(str u := True))) (drop (Suc i) oi), None)"
        using True "1.prems" dr
        by (intro "1.IH"(2) [OF True c unseen]) auto
      also have "\<dots> = (take i oi @ unseenFirst (elemKey str) (Some ` Collect seen) (drop i oi), None)"
      proof -
        have ns: "Some (str u) \<notin> Some ` Collect seen" using unseen by auto
        show ?thesis
          unfolding s using True ns k by (simp add: take_Suc_conv_app_nth dr)
      qed
      finally show ?thesis .
    qed
  qed
qed

lemma dedupeOrderedItemsLoop_err:
  "i \<le> length oi \<Longrightarrow> \<exists>e \<in> set (drop i oi). elemKey str e = None \<Longrightarrow>
   snd (dedupeOrderedItemsLoop str seen i oi) \<noteq> None"
proof (induction str seen i oi rule: dedupeOrderedItemsLoop.induct)
  case (1 str seen i oi)
  show ?case
  proof (cases "i < length oi")
    case False
    with "1.prems" show ?thesis by (subst dedupeOrderedItemsLoop.simps) simp
  next
    case True
    then have dr: "drop i oi = oi ! i # drop (Suc i) oi"
      by (simp add: Cons_nth_drop_Suc)
    show ?thesis
    proof (cases "(case oi ! i of AsType asType \<Rightarrow> GetId asType | AsIRI iri \<Rightarrow> Inr iri
                   | AsOther \<Rightarrow> Inl (ErrElementNoId i))")
      case (Inl err)
      then show ?thesis using True by (subst dedupeOrderedItemsLoop.simps) simp
    next
      case (Inr u)
      then have "ToId (oi ! i) = Inr u" by (simp add: loop_id_elemKey)
      then have "elemKey str (oi ! i) \<noteq> None" by (simp add: elemKey_def)
      with "1.prems" dr have rest: "\<exists>e \<in> set (drop (Suc i) oi). elemKey str e = None"
        by auto
      show ?thesis
      proof (cases "seen (str u)")
        case seen: True
        have "snd (dedupeOrderedItemsLoop str seen i (Remove i oi)) \<noteq> None"
          using True rest by (intro "1.IH"(1) [OF True Inr seen]) (auto simp: Remove_length Remove_drop)
        then show ?thesis
          using True Inr seen by (subst dedupeOrderedItemsLoop.simps) simp
      next
        case unseen: False
        have "snd (dedupeOrderedItemsLoop str (seen(str u := True)) (Suc i) oi) \<noteq> None"
          using True rest by (intro "1.IH"(2) [OF True Inr unseen]) auto
        then show ?thesis
          using True Inr unseen by (subst dedupeOrderedItemsLoop.simps) simp
      qed
    qed
  qed
qed

lemma Remove_nth_after: "i \<le> j \<Longrightarrow> Suc j < length xs \<Longrightarrow> Remove i xs ! j = xs ! Suc j"
  by (simp add: Remove_def nth_append min_def)

lemma Remove_drop_after: "i \<le> j \<Longrightarrow> Suc j \<le> length xs \<Longrightarrow> drop j (Remove i xs) = drop (Suc j) xs"
  by (simp add: Remove_def min_def)

lemma dedupeOrderedItemsLoop_stop:
  "i \<le> n \<Longrightarrow> n < length oi \<Longrightarrow>
   \<forall>e \<in> set (take (n - i) (drop i oi)). elemKey str e \<noteq> None \<Longrightarrow>
   (case oi ! n of AsType asType \<Rightarrow> GetId asType | AsIRI iri \<Rightarrow> Inr iri
    | AsOther \<Rightarrow> Inl (ErrElementNoId
        (i + length (unseenFirst (elemKey str) (Some ` Collect seen) (take (n - i) (drop i oi))))))
     = Inl err \<Longrightarrow>
   dedupeOrderedItemsLoop str seen i oi =
     (take i oi @ unseenFirst (elemKey str) (Some ` Collect seen) (take (n - i) (drop i oi))
        @ drop n oi, Some err)"
proof (induction str seen i oi arbitrary: n rule: dedupeOrderedItemsLoop.induct)
  case (1 str seen i oi)
  from "1.prems" have il: "i < length oi" by simp
  show ?case
  proof (cases "i = n")
    case True
    with "1.prems"(4) have "(case oi ! i of AsType asType \<Rightarrow> GetId asType | AsIRI iri \<Rightarrow> Inr iri
                   | AsOther \<Rightarrow> Inl (ErrElementNoId i)) = Inl err"
      by (simp split: elem.splits)
    with il True show ?thesis by (subst dedupeOrderedItemsLoop.simps) simp
  next
    case False
    with "1.prems" have lt: "i < n" by simp
    then have ni: "n - i = Suc (n - Suc i)" by simp
    have dr: "drop i oi = oi ! i # drop (Suc i) oi"
      using il by (simp add: Cons_nth_drop_Suc)
    have tk: "take (n - i) (drop i oi) = oi ! i # take (n - Suc i) (drop (Suc i) oi)"
      unfolding ni dr by simp
    from "1.prems"(3) have keyed: "elemKey str (oi ! i) \<noteq> None"
      and rest: "\<forall>e \<in> set (take (n - Suc i) (drop (Suc i) oi)). elemKey str e \<noteq> None"
      unfolding tk by simp_all
    from keyed obtain u where u: "ToId (oi ! i) = Inr u"
      by (auto simp: elemKey_def split: sum.splits)
    then have c: "(case oi ! i of AsType asType \<Rightarrow> GetId asType | AsIRI iri \<Rightarrow> Inr iri
                   | AsOther \<Rightarrow> Inl (ErrElementNoId i)) = Inr u"
      by (simp add: loop_id_elemKey)
    have k: "elemKey str (oi ! i) = Some (str u)"
      using u by (simp add: elemKey_def)
    show ?thesis
    proof (cases "seen (str u)")
      case seen: True
      have in_S: "Some (str u) \<in> Some ` Collect seen" using seen by simp
      have uf: "unseenFirst (elemKey str) (Some ` Collect seen) (take (n - i) (drop i oi))
              = unseenFirst (elemKey str) (Some ` Collect seen) (take (n - Suc i) (drop (Suc i) oi))"
        unfolding tk using in_S k by simp
      have n1: "n - 1 - i = n - Suc i" by simp
      have rdr: "drop i (Remove i oi) = drop (Suc i) oi"
        using il by (rule Remove_drop)
      have rn: "Remove i oi ! (n - 1) = oi ! n"
        using Remove_nth_after [of i "n - 1" oi] lt "1.prems"(2) by simp
      have rdn: "drop (n - 1) (Remove i oi) = drop n oi"
        using Remove_drop_after [of i "n - 1" oi] lt "1.prems"(2) by simp
      have p1: "i \<le> n - 1" using lt by simp
      have p2: "n - 1 < length (Remove i oi)"
        using lt "1.prems"(2) il by (simp add: Remove_length)
      have p3: "\<forall>e \<in> set (take (n - 1 - i) (drop i (Remove i oi))). elemKey str e \<noteq> None"
        unfolding n1 rdr using rest .
      have p4: "(case Remove i oi ! (n - 1) of AsType asType \<Rightarrow> GetId asType | AsIRI iri \<Rightarrow> Inr iri
          | AsOther \<Rightarrow> Inl (ErrElementNoId
              (i + length (unseenFirst (elemKey str) (Some ` Collect seen)
                    (take (n - 1 - i) (drop i (Remove i oi)))))))
          = Inl err"
        unfolding n1 rdr rn using "1.prems"(4) unfolding uf .
      have "dedupeOrderedItemsLoop str seen i oi = dedupeOrderedItemsLoop str seen i (Remove i oi)"
        using il c seen by (subst dedupeOrderedItemsLoop.simps) simp
      also have "\<dots> = (take i (Remove i oi) @
           unseenFirst (elemKey str) (Some ` Collect seen) (take (n - 1 - i) (drop i (Remove i oi)))
             @ drop (n - 1) (Remove i oi), Some err)"
        by (rule "1.IH"(1) [OF il c seen p1 p2 p3 p4])
      also have "\<dots> = (take i oi @
           unseenFirst (elemKey str) (Some ` Collect seen) (take (n - i) (drop i oi))
             @ drop n oi, Some err)"
        unfolding n1 rdr rdn uf using il by (simp add: Remove_take)
      finally show ?thesis .
    next
      case unseen: False
      have s: "Some ` Collect (seen(str u := True)) = insert (Some (str u)) (Some ` Collect seen)"
        by (auto split: if_splits)
      have ns: "Some (str u) \<notin> Some ` Collect seen" using unseen by auto
      have uf: "unseenFirst (elemKey str) (Some ` Collect seen) (take (n - i) (drop i oi))
              = oi ! i # unseenFirst (elemKey str) (Some ` Collect (seen(str u := True)))
                          (take (n - Suc i) (drop (Suc i) oi))"
        unfolding tk s using ns k by simp
      have p1: "Suc i \<le> n" using lt by simp
      have p4: "(case oi ! n of AsType asType \<Rightarrow> GetId asType | AsIRI iri \<Rightarrow> Inr iri
          | AsOther \<Rightarrow> Inl (ErrElementNoId
              (Suc i + length (unseenFirst (elemKey str) (Some ` Collect (seen(str u := True)))
                    (take (n - Suc i) (drop (Suc i) oi))))))
          = Inl err"
        using "1.prems"(4) unfolding uf by (simp split: elem.splits)
      have "dedupeOrderedItemsLoop str seen i oi =
            dedupeOrderedItemsLoop str (seen(str u := True)) (Suc i) oi"
        using il c unseen by (subst dedupeOrderedItemsLoop.simps) simp
      also have "\<dots> = (take (Suc i) oi @
           unseenFirst (elemKey str) (Some ` Collect (seen(str u := True)))
             (take (n - Suc i) (drop (Suc i) oi)) @ drop n oi, Some err)"
        by (rule "1.IH"(2) [OF il c unseen p1 "1.prems"(2) rest p4])
      also have "\<dots> = (take i oi @
           unseenFirst (elemKey str) (Some ` Collect seen) (take (n - i) (drop i oi))
             @ drop n oi, Some err)"
        unfolding uf using il by (simp add: take_Suc_conv_app_nth)
      finally show ?thesis .
    qed
  qed
qed

text \<open>
  C2, as the code has it. On a nil property \<open>dedupeOrderedItems\<close> does nothing. When every
  element has an id (it is an IRI, or a value with an \<open>id\<close> or an \<open>href\<close>), it returns no
  error and leaves exactly the elements whose id string does not occur at an earlier
  index, in their order; no two of them have the same id string. When some element has no
  id, it returns an error, the one it meets at the first such element, say at the index
  \<open>n\<close>: the elements before \<open>n\<close> are left as their first occurrences, and the element at
  \<open>n\<close> and every element after it stay as they were, duplicates among them; the index in
  the error is the one the element has after the removals before it.
\<close>

theorem dedupeOrderedItems_first_occurrences:
  "dedupeOrderedItems str None = (None, None)
   \<and> ((\<forall>e \<in> set oi. elemKey str e \<noteq> None) \<longrightarrow>
        dedupeOrderedItems str (Some oi) = (Some (firstOccurrences (elemKey str) oi), None)
        \<and> distinct (map (elemKey str) (firstOccurrences (elemKey str) oi)))
   \<and> ((\<exists>e \<in> set oi. elemKey str e = None) \<longrightarrow>
        (\<exists>oi' err. dedupeOrderedItems str (Some oi) = (Some oi', Some err)))
   \<and> (\<forall>n err. n < length oi \<and> (\<forall>e \<in> set (take n oi). elemKey str e \<noteq> None)
          \<and> (case oi ! n of AsType asType \<Rightarrow> GetId asType | AsIRI iri \<Rightarrow> Inr iri
              | AsOther \<Rightarrow> Inl (ErrElementNoId (length (firstOccurrences (elemKey str) (take n oi)))))
            = Inl err \<longrightarrow>
        dedupeOrderedItems str (Some oi)
          = (Some (firstOccurrences (elemKey str) (take n oi) @ drop n oi), Some err))"
proof (intro conjI impI allI)
  show "dedupeOrderedItems str None = (None, None)"
    by (simp add: dedupeOrderedItems_def)
next
  assume "\<exists>e \<in> set oi. elemKey str e = None"
  then have "snd (dedupeOrderedItemsLoop str (\<lambda>_. False) 0 oi) \<noteq> None"
    by (intro dedupeOrderedItemsLoop_err) auto
  then show "\<exists>oi' err. dedupeOrderedItems str (Some oi) = (Some oi', Some err)"
    by (cases "dedupeOrderedItemsLoop str (\<lambda>_. False) 0 oi") (auto simp: dedupeOrderedItems_def)
next
  assume a: "\<forall>e \<in> set oi. elemKey str e \<noteq> None"
  have "Some ` Collect (\<lambda>_::string. False) = {}" by simp
  with a have "dedupeOrderedItemsLoop str (\<lambda>_. False) 0 oi = (unseenFirst (elemKey str) {} oi, None)"
    using dedupeOrderedItemsLoop_ok [of 0 oi str "\<lambda>_. False"] by simp
  then show "dedupeOrderedItems str (Some oi) = (Some (firstOccurrences (elemKey str) oi), None)"
    by (simp add: dedupeOrderedItems_def firstOccurrences_unseenFirst)
next
  show "distinct (map (elemKey str) (firstOccurrences (elemKey str) oi))"
    by (simp add: firstOccurrences_unseenFirst unseenFirst_distinct)
next
  fix n err
  assume h: "n < length oi \<and> (\<forall>e \<in> set (take n oi). elemKey str e \<noteq> None)
          \<and> (case oi ! n of AsType asType \<Rightarrow> GetId asType | AsIRI iri \<Rightarrow> Inr iri
              | AsOther \<Rightarrow> Inl (ErrElementNoId (length (firstOccurrences (elemKey str) (take n oi)))))
            = Inl err"
  have e: "Some ` Collect (\<lambda>_::string. False) = {}" by simp
  from h have "dedupeOrderedItemsLoop str (\<lambda>_. False) 0 oi =
     (take 0 oi @ unseenFirst (elemKey str) (Some ` Collect (\<lambda>_. False)) (take (n - 0) (drop 0 oi))
        @ drop n oi, Some err)"
    by (intro dedupeOrderedItemsLoop_stop)
       (simp_all add: e firstOccurrences_unseenFirst split: elem.splits)
  then show "dedupeOrderedItems str (Some oi)
          = (Some (firstOccurrences (elemKey str) (take n oi) @ drop n oi), Some err)"
    by (simp add: dedupeOrderedItems_def firstOccurrences_unseenFirst)
qed

theorem dedupeOrderedItems_first_occurrences_witness:
  "dedupeOrderedItems id (Some [AsIRI ''a'', exNote ''b'', AsIRI ''b'', exNote ''a'', AsIRI ''c''])
     = (Some [AsIRI ''a'', exNote ''b'', AsIRI ''c''], None)
   \<and> dedupeOrderedItems id (Some [AsIRI ''a'', AsIRI ''b'', AsIRI ''a'', AsOther, AsIRI ''b''])
     = (Some [AsIRI ''a'', AsIRI ''b'', AsOther, AsIRI ''b''], Some (ErrElementNoId 2))"
proof -
  have k: "list_all (\<lambda>e. elemKey id e \<noteq> None)
             [AsIRI ''a'', exNote ''b'', AsIRI ''b'', exNote ''a'', AsIRI ''c'']"
    by (simp add: elemKey_def exNote_def GetId_def)
  have f: "firstOccurrences (elemKey id)
             [AsIRI ''a'', exNote ''b'', AsIRI ''b'', exNote ''a'', AsIRI ''c'']
           = [AsIRI ''a'', exNote ''b'', AsIRI ''c'']"
    by (simp add: firstOccurrences_unseenFirst elemKey_def exNote_def GetId_def)
  have g: "firstOccurrences (elemKey id) [AsIRI ''a'', AsIRI ''b'', AsIRI ''a'' :: string elem]
           = [AsIRI ''a'', AsIRI ''b'']"
    by (simp add: firstOccurrences_unseenFirst elemKey_def)
  from dedupeOrderedItems_first_occurrences [of id
      "[AsIRI ''a'', exNote ''b'', AsIRI ''b'', exNote ''a'', AsIRI ''c'']"] k
  have 1: "dedupeOrderedItems id
      (Some [AsIRI ''a'', exNote ''b'', AsIRI ''b'', exNote ''a'', AsIRI ''c''])
     = (Some [AsIRI ''a'', exNote ''b'', AsIRI ''c''], None)"
    unfolding f by (simp add: list_all_iff)
  have "\<forall>n err. n < length [AsIRI ''a'', AsIRI ''b'', AsIRI ''a'', AsOther, AsIRI ''b'' :: string elem]
          \<and> (\<forall>e \<in> set (take n [AsIRI ''a'', AsIRI ''b'', AsIRI ''a'', AsOther, AsIRI ''b'']).
                elemKey id e \<noteq> None)
          \<and> (case [AsIRI ''a'', AsIRI ''b'', AsIRI ''a'', AsOther, AsIRI ''b''] ! n of
                AsType asType \<Rightarrow> GetId asType | AsIRI iri \<Rightarrow> Inr iri
              | AsOther \<Rightarrow> Inl (ErrElementNoId (length (firstOccurrences (elemKey id)
                    (take n [AsIRI ''a'', AsIRI ''b'', AsIRI ''a'', AsOther, AsIRI ''b''])))))
            = Inl err \<longrightarrow>
        dedupeOrderedItems id (Some [AsIRI ''a'', AsIRI ''b'', AsIRI ''a'', AsOther, AsIRI ''b''])
          = (Some (firstOccurrences (elemKey id)
                     (take n [AsIRI ''a'', AsIRI ''b'', AsIRI ''a'', AsOther, AsIRI ''b''])
                   @ drop n [AsIRI ''a'', AsIRI ''b'', AsIRI ''a'', AsOther, AsIRI ''b'']), Some err)"
    using dedupeOrderedItems_first_occurrences [of id
      "[AsIRI ''a'', AsIRI ''b'', AsIRI ''a'', AsOther, AsIRI ''b'']"] by (elim conjE)
  from this [rule_format, of 3 "ErrElementNoId 2"]
  have 2: "dedupeOrderedItems id (Some [AsIRI ''a'', AsIRI ''b'', AsIRI ''a'', AsOther, AsIRI ''b''])
     = (Some [AsIRI ''a'', AsIRI ''b'', AsOther, AsIRI ''b''], Some (ErrElementNoId 2))"
    using g by (simp add: elemKey_def)
  from 1 2 show ?thesis by (rule conjI)
qed

text \<open>
  C2 as stated has no two remaining entries with the same id after every call. When an
  element has no id the function returns where it finds it, and the elements after it are
  as they were: of \<open>a, a, x, a\<close> with \<open>x\<close> neither a value nor an IRI, the second \<open>a\<close> is
  removed and the last one stays, so that two of the remaining entries have the id \<open>a\<close>,
  and the last is not the first occurrence of its id.
\<close>

theorem dedupeOrderedItems_error_counterexample:
  "dedupeOrderedItems id (Some [AsIRI ''a'', AsIRI ''a'', AsOther, AsIRI ''a''])
     = (Some [AsIRI ''a'', AsOther, AsIRI ''a''], Some (ErrElementNoId 1))
   \<and> elemKey id ([AsIRI ''a'', AsOther, AsIRI ''a''] ! 0) = Some ''a''
   \<and> elemKey id ([AsIRI ''a'', AsOther, AsIRI ''a''] ! 2) = Some ''a''
   \<and> firstOccurrences (elemKey id) [AsIRI ''a'', AsIRI ''a'', AsOther, AsIRI ''a'' :: string elem]
     = [AsIRI ''a'', AsOther]"
proof -
  have 1: "dedupeOrderedItems id (Some [AsIRI ''a'', AsIRI ''a'', AsOther, AsIRI ''a''])
     = (Some [AsIRI ''a'', AsOther, AsIRI ''a''], Some (ErrElementNoId 1))"
    by code_simp
  have 2: "elemKey id ([AsIRI ''a'', AsOther, AsIRI ''a''] ! 0) = Some ''a''"
    by (simp add: elemKey_def)
  have 3: "elemKey id ([AsIRI ''a'', AsOther, AsIRI ''a''] ! 2) = Some ''a''"
    by (simp add: elemKey_def)
  have 4: "firstOccurrences (elemKey id) [AsIRI ''a'', AsIRI ''a'', AsOther, AsIRI ''a'' :: string elem]
     = [AsIRI ''a'', AsOther]"
    by (simp add: firstOccurrences_unseenFirst elemKey_def)
  from 1 2 3 4 show ?thesis by (intro conjI)
qed

section \<open>IsActivityPubRequest\<close>

lemma containsAny_iff: "containsAny header ms \<longleftrightarrow> (\<exists>m \<in> set ms. sublist m header)"
  by (induction ms) (auto simp: Contains_def)

lemma init_media_types: "activityStreamsMediaTypes = acceptedMediaTypes"
  by (simp add: activityStreamsMediaTypes_def acceptedMediaTypes_def jsonLdType_def
      profileUnquoted_def)

lemma headerIsActivityPubMediaType_iff:
  "headerIsActivityPubMediaType header \<longleftrightarrow> mentionsAccepted header"
  by (simp add: headerIsActivityPubMediaType_def containsAny_iff init_media_types
      mentionsAccepted_def)

text \<open>
  C8. \<open>IsActivityPubRequest r\<close> holds exactly when \<open>r\<close> is a POST whose \<open>Content-Type\<close>
  contains one of the accepted media types, or a GET whose \<open>Accept\<close> contains one of them.
  The accepted media types are \<open>application/activity+json\<close> and \<open>application/ld+json\<close>
  followed by a semicolon with at most one blank on either side and the activitystreams
  profile, its URI quoted or unquoted.
\<close>

theorem IsActivityPubRequest_iff:
  "IsActivityPubRequest r \<longleftrightarrow>
     (Method r = ''POST'' \<and> mentionsAccepted (Get (Header r) ''Content-Type''))
   \<or> (Method r = ''GET'' \<and> mentionsAccepted (Get (Header r) ''Accept''))"
  by (auto simp: IsActivityPubRequest_def isActivityPubGet_def isActivityPubPost_def
      headerIsActivityPubMediaType_iff contentTypeHeader_def acceptHeader_def)

theorem IsActivityPubRequest_iff_witness:
  "IsActivityPubRequest \<lparr>Method = ''POST'', URL = ''/inbox'',
       Header = (\<lambda>_. [])(''Content-Type'' := [ldJsonHeader]), Body = 0\<rparr>
   \<and> \<not> IsActivityPubRequest \<lparr>Method = ''GET'', URL = ''/inbox'',
       Header = (\<lambda>_. [])(''Content-Type'' := [ldJsonHeader]), Body = 0\<rparr>"
proof -
  have "sublist (''application/ld+json; '' @ profileQuoted) ldJsonHeader"
    unfolding ldJsonHeader_def
    using prefix_imp_sublist [of "''application/ld+json; '' @ profileQuoted"
        "(''application/ld+json; '' @ profileQuoted) @ ''; charset=utf-8''"]
    by simp
  then have m: "mentionsAccepted ldJsonHeader"
    by (auto simp: mentionsAccepted_def acceptedMediaTypes_def)
  have n: "\<not> mentionsAccepted []"
    by (simp add: mentionsAccepted_def acceptedMediaTypes_def)
  show ?thesis
    using m n
      IsActivityPubRequest_iff [of "\<lparr>Method = ''POST'', URL = ''/inbox'',
         Header = (\<lambda>_. [])(''Content-Type'' := [ldJsonHeader]), Body = 0\<rparr>"]
      IsActivityPubRequest_iff [of "\<lparr>Method = ''GET'', URL = ''/inbox'',
         Header = (\<lambda>_. [])(''Content-Type'' := [ldJsonHeader]), Body = 0\<rparr>"]
    by (simp add: Get_def)
qed

section \<open>clearSensitiveFields\<close>

lemma removeFromFront_empty: "removeFromFront xs = []"
proof (induction xs rule: removeFromFront.induct)
  case (1 xs)
  then show ?case by (subst removeFromFront.simps) simp
qed

lemma elems_emptied: "elems (emptied p) = []"
  by (cases p) (simp_all add: emptied_def elems_def removeFromFront_empty)

lemma viaObject_clearSensitiveFields:
  "viaObject (clearSensitiveFields (VType n i h to bto cc bcc aud ob ac ta pu up ft de)) =
     clearSensitiveFields (VType n i h to bto cc bcc aud ob ac ta pu up ft de) #
     concat (map (\<lambda>e. case e of AsType t \<Rightarrow> viaObject (clearSensitiveFields t) | _ \<Rightarrow> [])
               (elems ob))"
proof (cases ob)
  case (Has op)
  have key: "map ((\<lambda>e. case e of AsType t \<Rightarrow> viaObject t | _ \<Rightarrow> []) \<circ>
             (\<lambda>iter. case iter of AsType t \<Rightarrow> AsType (clearSensitiveFields t) | _ \<Rightarrow> iter)) op =
        map (\<lambda>e. case e of AsType t \<Rightarrow> viaObject (clearSensitiveFields t) | _ \<Rightarrow> []) op"
    by (rule map_cong) (simp_all split: elem.split)
  show ?thesis using Has by (simp add: elems_def key)
qed (simp_all add: elems_def)

lemma hiddenRecipients_cleared:
  "hiddenRecipients (clearSensitiveFields t) = []"
  by (cases t) (simp add: hiddenRecipients_def elems_emptied)

text \<open>
  C3, as the code has it. After \<open>clearSensitiveFields\<close> the value itself and every value
  reached from it through \<open>object\<close> properties have no \<open>bto\<close> and no \<open>bcc\<close> entries.
\<close>

theorem clearSensitiveFields_via_object:
  "\<forall>x \<in> set (viaObject (clearSensitiveFields t)). hiddenRecipients x = []"
proof (induction t rule: clearSensitiveFields.induct)
  case (1 n i h to bto cc bcc aud ob ac ta pu up ft de)
  show ?case
  proof
    fix x
    assume "x \<in> set (viaObject (clearSensitiveFields
              (VType n i h to bto cc bcc aud ob ac ta pu up ft de)))"
    then consider
        (top) "x = clearSensitiveFields (VType n i h to bto cc bcc aud ob ac ta pu up ft de)"
      | (sub) e where "e \<in> set (elems ob)"
          "x \<in> set (case e of AsType t \<Rightarrow> viaObject (clearSensitiveFields t) | _ \<Rightarrow> [])"
      unfolding viaObject_clearSensitiveFields by auto
    then show "hiddenRecipients x = []"
    proof cases
      case top
      then show ?thesis by (simp only: hiddenRecipients_cleared)
    next
      case sub
      then obtain t where e: "e = AsType t" and x: "x \<in> set (viaObject (clearSensitiveFields t))"
        by (cases e) auto
      from sub(1) obtain op where ob: "ob = Has op" and "e \<in> set op"
        by (cases ob) (auto simp: elems_def)
      with e "1.IH" [OF ob, of e t] x show ?thesis by blast
    qed
  qed
qed


theorem clearSensitiveFields_via_object_witness:
  "list_all (\<lambda>x. hiddenRecipients x = []) (viaObject (clearSensitiveFields exCreate))
   \<and> length (viaObject (clearSensitiveFields exCreate)) = 2
   \<and> hiddenRecipients exCreate = [AsIRI ''https://c.example/c'']"
proof -
  have "length (viaObject (clearSensitiveFields exCreate)) = 2"
    by (simp add: exCreate_def exHiddenNote_def elems_def)
  moreover have "hiddenRecipients exCreate = [AsIRI ''https://c.example/c'']"
    by (simp add: exCreate_def hiddenRecipients_def elems_def)
  ultimately show ?thesis
    using clearSensitiveFields_via_object [of exCreate] by (simp add: list_all_iff)
qed

text \<open>
  C3 as stated speaks of every value reachable from the payload. A value embedded in
  another property is not visited: the collection in the \<open>target\<close> of \<open>exAdd\<close> keeps its
  \<open>bto\<close> entry.
\<close>

theorem clearSensitiveFields_anywhere_counterexample:
  "exCollection \<in> set (subvalues (clearSensitiveFields exAdd))
   \<and> hiddenRecipients exCollection = [AsIRI ''https://c.example/c'']"
  by (simp add: exAdd_def exCollection_def exNote_def hiddenRecipients_def elems_def)

section \<open>toTombstone\<close>

lemma toTombstone_fields:
  "toTombstone obj i now =
     VType ''Tombstone'' (Some i) Absent Unset Unset Unset Unset Unset Absent Absent Absent
       (case publishedP obj of Has pub \<Rightarrow> Has pub | _ \<Rightarrow> Unset)
       (case updatedP obj of Has upd \<Rightarrow> Has upd | _ \<Rightarrow> Unset)
       (Has [typeName obj]) (Has now)"
  by (simp add: toTombstone_def NewActivityStreamsTombstone_def Let_def
      SetActivityStreamsId_def SetActivityStreamsFormerType_def SetActivityStreamsPublished_def
      SetActivityStreamsUpdated_def SetActivityStreamsDeleted_def split: slot.splits)

text \<open>
  C6, as the code has it. The Tombstone of a Tombstone of \<open>obj\<close> has the \<open>id\<close>, \<open>published\<close>
  and \<open>updated\<close> of the Tombstone of \<open>obj\<close> and the second time as \<open>deleted\<close>, but its
  \<open>formerType\<close> is \<open>Tombstone\<close>, where the Tombstone of \<open>obj\<close> has the type name of \<open>obj\<close>;
  the two are equal exactly when \<open>obj\<close> is itself named \<open>Tombstone\<close>.
\<close>

theorem toTombstone_twice:
  "toTombstone (toTombstone obj i t1) i t2 =
     SetActivityStreamsFormerType [''Tombstone''] (toTombstone obj i t2)
   \<and> idP (toTombstone (toTombstone obj i t1) i t2) = idP (toTombstone obj i t2)
   \<and> publishedP (toTombstone (toTombstone obj i t1) i t2) = publishedP (toTombstone obj i t2)
   \<and> updatedP (toTombstone (toTombstone obj i t1) i t2) = updatedP (toTombstone obj i t2)
   \<and> deletedP (toTombstone (toTombstone obj i t1) i t2) = Has t2
   \<and> formerTypeP (toTombstone (toTombstone obj i t1) i t2) = Has [''Tombstone'']
   \<and> formerTypeP (toTombstone obj i t2) = Has [typeName obj]
   \<and> (toTombstone (toTombstone obj i t1) i t2 = toTombstone obj i t2
        \<longleftrightarrow> typeName obj = ''Tombstone'')"
  by (auto simp: toTombstone_fields SetActivityStreamsFormerType_def split: slot.splits)

theorem toTombstone_twice_witness:
  "formerTypeP (toTombstone (toTombstone exHiddenNote ''https://a.example/note/7'' 1600000000)
       ''https://a.example/note/7'' 1700000000) = Has [''Tombstone'']
   \<and> publishedP (toTombstone (toTombstone exHiddenNote ''https://a.example/note/7'' 1600000000)
       ''https://a.example/note/7'' 1700000000) = Has 1500000000
   \<and> publishedP (toTombstone exHiddenNote ''https://a.example/note/7'' 1700000000) = Has 1500000000"
  using toTombstone_twice [of exHiddenNote "''https://a.example/note/7''" 1600000000 1700000000]
  by (simp add: toTombstone_fields exHiddenNote_def SetActivityStreamsFormerType_def)

text \<open>
  C6 as stated asks for the same Tombstone. For a Note the two differ in \<open>formerType\<close>.
\<close>

theorem toTombstone_idempotent_counterexample:
  "toTombstone (toTombstone exHiddenNote ''https://a.example/note/7'' 1600000000)
       ''https://a.example/note/7'' 1700000000
     \<noteq> toTombstone exHiddenNote ''https://a.example/note/7'' 1700000000
   \<and> formerTypeP (toTombstone (toTombstone exHiddenNote ''https://a.example/note/7'' 1600000000)
       ''https://a.example/note/7'' 1700000000) = Has [''Tombstone'']
   \<and> formerTypeP (toTombstone exHiddenNote ''https://a.example/note/7'' 1700000000) = Has [''Note'']"
  by (simp add: toTombstone_fields exHiddenNote_def)

section \<open>mustHaveActivityActorsMatchObjectActors\<close>

text \<open>
  C5. The claim is that an embedded object value has its actors checked directly, and that
  the function returns nil when every actor of every object is an actor of the activity.
  The Follow \<open>exFollow\<close> has the actor of the activity as its only actor. Given by its IRI
  it is dereferenced and accepted; embedded as a value it is rejected with the error
  "object is neither a value nor IRI".
\<close>

theorem mustHaveActivityActorsMatchObjectActors_embedded_value:
  "mustHaveActivityActorsMatchObjectActors id exDeref
      [AsIRI ''https://a.example/a''] [AsType exFollow] = Some ErrNeitherValueNorIRI
   \<and> mustHaveActivityActorsMatchObjectActors id exDeref
      [AsIRI ''https://a.example/a''] [AsIRI ''https://a.example/act/1''] = None"
  by (simp add: mustHaveActivityActorsMatchObjectActors_def exDeref_def exFollow_def)

section \<open>serialize\<close>












lemma set_update_subset: "set (AList.update k v al) \<subseteq> insert (k, v) (set al)"
  by (induction al) auto








section \<open>normalizeRecipients\<close>

lemma idStrings_Nil: "idStrings str [] = {}"
  by (simp add: idStrings_def)

lemma idStrings_Cons:
  "idStrings str (e # es) = (case ToId e of Inr u \<Rightarrow> {str u} | Inl _ \<Rightarrow> {}) \<union> idStrings str es"
  by (simp add: idStrings_def split: sum.splits)

lemma idStrings_append: "idStrings str (xs @ ys) = idStrings str xs \<union> idStrings str ys"
  by (simp add: idStrings_def)

lemma idStrings_concat: "idStrings str (concat xss) = (\<Union>xs \<in> set xss. idStrings str xs)"
  by (induction xss) (simp_all add: idStrings_Nil idStrings_append)

lemma keyed_update: "keyed str m \<Longrightarrow> keyed str (AList.update (str u) u m)"
  using set_update_subset [of "str u" u m] by (auto simp: keyed_def)

lemma collectIds_spec:
  "keyed str m \<Longrightarrow> collectIds str m es = Inr m' \<Longrightarrow>
   keyed str m' \<and> fst ` set m' = fst ` set m \<union> idStrings str es"
proof (induction es arbitrary: m)
  case Nil
  then show ?case by (simp add: idStrings_Nil)
next
  case (Cons e es)
  from Cons.prems(2) obtain u where u: "ToId e = Inr u"
    and r: "collectIds str (AList.update (str u) u m) es = Inr m'"
    by (auto split: sum.splits)
  from Cons.IH [OF keyed_update [OF Cons.prems(1)] r] u
  show ?case by (auto simp: idStrings_Cons dom_update)
qed

lemma idStrings_missing:
  assumes "keyed str src" and "set (rng src) = set src"
  shows "idStrings str (missing rng src hv) = fst ` set src - fst ` set hv"
proof -
  have "idStrings str (map (\<lambda>(k, v). AsIRI v) xs) = str ` snd ` set xs" for xs :: "(string \<times> 'a) list"
    by (induction xs) (auto simp: idStrings_Nil idStrings_Cons)
  then have "idStrings str (missing rng src hv) =
        str ` snd ` {kv \<in> set src. map_of hv (fst kv) = None}"
    using assms(2) by (auto simp: missing_def case_prod_beta)
  also have "\<dots> = fst ` {kv \<in> set src. map_of hv (fst kv) = None}"
    using assms(1) by (force simp: keyed_def)
  also have "\<dots> = fst ` set src - fst ` set hv"
    by (auto simp: map_of_eq_None_iff)
  finally show ?thesis .
qed

lemma actorMaps_spec:
  "actorMaps str a Ds = Inr ms \<Longrightarrow> distinct Ds \<Longrightarrow> D \<in> set Ds \<Longrightarrow>
   keyed str (ms D) \<and> fst ` set (ms D) = idStrings str (orNew (getActivity D a))"
proof (induction Ds arbitrary: ms)
  case Nil
  then show ?case by simp
next
  case (Cons D' Ds)
  from Cons.prems(1) obtain m ms' where
    m: "collectIds str [] (orNew (getActivity D' a)) = Inr m" and
    ms': "actorMaps str a Ds = Inr ms'" and ms: "ms = ms'(D' := m)"
    by (auto split: sum.splits)
  have k0: "keyed str []" by (simp add: keyed_def)
  show ?case
  proof (cases "D = D'")
    case True
    with collectIds_spec [OF k0 m] ms show ?thesis by simp
  next
    case False
    with Cons.prems have "D \<in> set Ds" "distinct Ds" by auto
    with Cons.IH [OF ms'] False ms show ?thesis by simp
  qed
qed

lemma objectMaps_spec:
  "objectMaps str i t Ds = Inr ms \<Longrightarrow> distinct Ds \<Longrightarrow> D \<in> set Ds \<Longrightarrow>
   keyed str (ms D) \<and> fst ` set (ms D) = idStrings str (elems (getObject D t))"
proof (induction Ds arbitrary: ms)
  case Nil
  then show ?case by simp
next
  case (Cons D' Ds)
  from Cons.prems(1) obtain m ms' where
    m: "collectIds str [] (elems (getObject D' t)) = Inr m" and
    ms': "objectMaps str i t Ds = Inr ms'" and ms: "ms = ms'(D' := m)"
    by (auto split: sum.splits slot.splits)
  have k0: "keyed str []" by (simp add: keyed_def)
  show ?case
  proof (cases "D = D'")
    case True
    with collectIds_spec [OF k0 m] ms show ?thesis by simp
  next
    case False
    with Cons.prems have "D \<in> set Ds" "distinct Ds" by auto
    with Cons.IH [OF ms'] False ms show ?thesis by simp
  qed
qed

lemma getObject_setObject:
  "getObject D (setObject D' p t) = (if D = D' then Has p else getObject D t)"
  by (cases t; cases D; cases D')
     (simp_all add: SetActivityStreamsTo_def SetActivityStreamsBto_def SetActivityStreamsCc_def
        SetActivityStreamsBcc_def SetActivityStreamsAudience_def)

lemma getObject_foldl:
  "distinct Ds \<Longrightarrow>
   getObject D (foldl (\<lambda>t D'. setObject D' (elems (getObject D' t) @ f D') t) t Ds) =
     (if D \<in> set Ds then Has (elems (getObject D t) @ f D) else getObject D t)"
  by (induction Ds arbitrary: t) (auto simp: getObject_setObject)

lemma getActivity_setActivity:
  "getActivity D (setActivity D' p a) = (if D = D' then Some p else getActivity D a)"
  by (cases D; cases D') simp_all

lemma Object_setActivity: "ActivityStreamsObject (setActivity D p a) = ActivityStreamsObject a"
  by (cases D) simp_all

lemma getActivity_foldl:
  "distinct Ds \<Longrightarrow>
   getActivity D (foldl (\<lambda>a D'. setActivity D' (orNew (getActivity D' a) @ f D') a) a Ds) =
     (if D \<in> set Ds then Some (orNew (getActivity D a) @ f D) else getActivity D a)"
  by (induction Ds arbitrary: a) (auto simp: getActivity_setActivity)

lemma Object_foldl:
  "ActivityStreamsObject (foldl (\<lambda>a D'. setActivity D' (g D' a) a) a Ds) = ActivityStreamsObject a"
  by (induction Ds arbitrary: a) (auto simp: Object_setActivity)

lemma getActivity_Object_update:
  "getActivity D (a\<lparr>ActivityStreamsObject := x\<rparr>) = getActivity D a"
  by (cases D) simp_all

lemma dimensions_all: "distinct dimensions" "D \<in> set dimensions"
  by (cases D; simp add: dimensions_def)+


lemma UN_set_nth: "(\<Union>x \<in> set xs. F x) = (\<Union>j \<in> {..<length xs}. F (xs ! j))"
  by (force simp: in_set_conv_nth)

lemma elems_simps: "elems (Has xs) = xs" "elems Unset = []" "elems Absent = []"
  by (simp_all add: elems_def)

lemma orNew_simps: "orNew (Some xs) = xs" "orNew None = []"
  by (simp_all add: orNew_def)

lemma normalizeObject_spec:
  assumes n: "normalizeObject str rng actorMap i e = Inr (e', objs)"
    and am: "keyed str (actorMap D)"
    and rng: "\<And>m. set (rng m) = set m"
  shows "idStrings str (ofObject D e') = idStrings str (ofObject D e) \<union> fst ` set (actorMap D)"
    and "keyed str (objs D)"
    and "fst ` set (objs D) = idStrings str (ofObject D e)"
proof -
  from n obtain t where e: "e = AsType t"
    and om: "objectMaps str i t dimensions = Inr objs"
    and e': "e' = AsType (foldl (\<lambda>t D. setObject D
                (elems (getObject D t) @ missing rng (actorMap D) (objs D)) t) t dimensions)"
    by (auto simp: normalizeObject_def split: elem.splits sum.splits)
  from objectMaps_spec [OF om dimensions_all]
  have k: "keyed str (objs D)" and d: "fst ` set (objs D) = idStrings str (elems (getObject D t))"
    by simp_all
  show "keyed str (objs D)" by (rule k)
  show "fst ` set (objs D) = idStrings str (ofObject D e)"
    using d e by (simp add: ofObject_def)
  have "ofObject D e' = elems (getObject D t) @ missing rng (actorMap D) (objs D)"
    unfolding e' ofObject_def
    by (simp add: getObject_foldl [OF dimensions_all(1)] dimensions_all(2) elems_simps)
  then show "idStrings str (ofObject D e') = idStrings str (ofObject D e) \<union> fst ` set (actorMap D)"
    using d e by (auto simp: idStrings_append idStrings_missing [of str "actorMap D" rng, OF am rng] ofObject_def)
qed

lemma objectsLoopN_spec:
  assumes am: "\<And>D. keyed str (actorMap D)"
    and rng: "\<And>m. set (rng m) = set m"
  shows "objectsLoopN str rng actorMap i es = Inr (es', objss) \<Longrightarrow>
     length es' = length es \<and> length objss = length es \<and>
     (\<forall>j < length es. \<forall>D.
        idStrings str (ofObject D (es' ! j)) = idStrings str (ofObject D (es ! j)) \<union> fst ` set (actorMap D)
      \<and> keyed str ((objss ! j) D)
      \<and> fst ` set ((objss ! j) D) = idStrings str (ofObject D (es ! j)))"
proof (induction es arbitrary: i es' objss)
  case Nil
  then show ?case by simp
next
  case (Cons e es)
  from Cons.prems obtain e1 objs rest objs' where
    n: "normalizeObject str rng actorMap i e = Inr (e1, objs)" and
    r: "objectsLoopN str rng actorMap (Suc i) es = Inr (rest, objs')" and
    eq: "es' = e1 # rest" "objss = objs # objs'"
    by (auto split: sum.splits prod.splits)
  note ih = Cons.IH [OF r]
  note hd = normalizeObject_spec [OF n am rng]
  show ?case
  proof (intro conjI allI impI)
    show "length es' = length (e # es)" using ih eq by simp
    show "length objss = length (e # es)" using ih eq by simp
  next
    fix j D
    assume "j < length (e # es)"
    then show "idStrings str (ofObject D (es' ! j)) =
          idStrings str (ofObject D ((e # es) ! j)) \<union> fst ` set (actorMap D)"
      using ih hd(1) [of D] eq by (cases j) auto
  next
    fix j D
    assume "j < length (e # es)"
    then show "keyed str ((objss ! j) D)"
      using ih hd(2) [of D] eq by (cases j) auto
  next
    fix j D
    assume "j < length (e # es)"
    then show "fst ` set ((objss ! j) D) = idStrings str (ofObject D ((e # es) ! j))"
      using ih hd(3) [of D] eq by (cases j) auto
  qed
qed

lemma normalizeRecipients_example:
  "normalizeRecipients id rev exCreateA = Inr exNormalized"
  by code_simp

text \<open>
  C1, as the code has it. When \<open>normalizeRecipients\<close> returns without error, then for every
  addressing property \<open>D\<close>, seen as the set of the id strings of its elements: the
  activity's \<open>D\<close> becomes its original \<open>D\<close> united with the original \<open>D\<close> of every
  object; the \<open>D\<close> of every object becomes its original \<open>D\<close> united with the activity's
  original \<open>D\<close>, and with nothing of another object; and when the activity has at least
  one object, the activity's \<open>D\<close> afterwards is the union of the objects' \<open>D\<close> afterwards.
  (\<open>range\<close> visits the entries of a map in any order.)
\<close>

theorem normalizeRecipients_sets:
  assumes rng: "\<And>m. set (rng m) = set m"
    and ok: "normalizeRecipients str rng a = Inr a'"
  shows "\<exists>ob ob'.
     ActivityStreamsObject a = Some ob \<and> ActivityStreamsObject a' = Some ob' \<and>
     length ob' = length ob \<and>
     (\<forall>D. idStrings str (orNew (getActivity D a')) =
             idStrings str (orNew (getActivity D a)) \<union> (\<Union>e \<in> set ob. idStrings str (ofObject D e))) \<and>
     (\<forall>D. \<forall>j < length ob.
         idStrings str (ofObject D (ob' ! j)) =
           idStrings str (ofObject D (ob ! j)) \<union> idStrings str (orNew (getActivity D a))) \<and>
     (ob \<noteq> [] \<longrightarrow>
        (\<forall>D. idStrings str (orNew (getActivity D a')) =
                (\<Union>e \<in> set ob'. idStrings str (ofObject D e))))"
proof -
  from ok obtain actorMap ob ob' objss where
    am: "actorMaps str a dimensions = Inr actorMap" and
    ob: "ActivityStreamsObject a = Some ob" and
    lp: "objectsLoopN str rng actorMap 0 ob = Inr (ob', objss)" and
    a': "a' = foldl (\<lambda>a D. setActivity D
                      (orNew (getActivity D a) @
                       concat (map (\<lambda>objs. missing rng (objs D) (actorMap D)) objss)) a)
                   (a\<lparr>ActivityStreamsObject := Some ob'\<rparr>) dimensions"
    by (auto simp: normalizeRecipients_def split: sum.splits option.splits prod.splits)
  have amk: "keyed str (actorMap D)" and
       amd: "fst ` set (actorMap D) = idStrings str (orNew (getActivity D a))" for D
    using actorMaps_spec [OF am dimensions_all] by simp_all
  from objectsLoopN_spec [OF amk rng lp]
  have len: "length ob' = length ob" "length objss = length ob"
    and each: "\<And>j D. j < length ob \<Longrightarrow>
        idStrings str (ofObject D (ob' ! j)) =
          idStrings str (ofObject D (ob ! j)) \<union> fst ` set (actorMap D)"
    and objk: "\<And>j D. j < length ob \<Longrightarrow> keyed str ((objss ! j) D)"
    and objd: "\<And>j D. j < length ob \<Longrightarrow>
        fst ` set ((objss ! j) D) = idStrings str (ofObject D (ob ! j))"
    by simp_all
  have obj': "ActivityStreamsObject a' = Some ob'"
    unfolding a' by (simp add: Object_foldl)
  have act': "orNew (getActivity D a') =
        orNew (getActivity D a) @ concat (map (\<lambda>objs. missing rng (objs D) (actorMap D)) objss)" for D
    unfolding a'
    by (simp add: getActivity_foldl [OF dimensions_all(1)] dimensions_all(2)
        getActivity_Object_update orNew_simps)
  have miss: "(\<Union>objs \<in> set objss. idStrings str (missing rng (objs D) (actorMap D))) =
        (\<Union>e \<in> set ob. idStrings str (ofObject D e)) - idStrings str (orNew (getActivity D a))" for D
  proof -
    have "(\<Union>objs \<in> set objss. idStrings str (missing rng (objs D) (actorMap D))) =
          (\<Union>j \<in> {..<length ob}. idStrings str (missing rng ((objss ! j) D) (actorMap D)))"
      by (simp only: UN_set_nth len(2))
    also have "\<dots> = (\<Union>j \<in> {..<length ob}.
          idStrings str (ofObject D (ob ! j)) - idStrings str (orNew (getActivity D a)))"
      using objk objd amd
      by (simp add: idStrings_missing [of str _ rng, OF _ rng])
    also have "\<dots> = (\<Union>e \<in> set ob. idStrings str (ofObject D e))
          - idStrings str (orNew (getActivity D a))"
      by (subst UN_set_nth) blast
    finally show ?thesis .
  qed
  have A: "idStrings str (orNew (getActivity D a')) =
        idStrings str (orNew (getActivity D a)) \<union> (\<Union>e \<in> set ob. idStrings str (ofObject D e))" for D
    unfolding act' by (auto simp: idStrings_append idStrings_concat miss)
  have B: "idStrings str (ofObject D (ob' ! j)) =
        idStrings str (ofObject D (ob ! j)) \<union> idStrings str (orNew (getActivity D a))"
    if "j < length ob" for D j
    using each [OF that] amd by simp
  have C: "idStrings str (orNew (getActivity D a')) =
        (\<Union>e \<in> set ob'. idStrings str (ofObject D e))" if ne: "ob \<noteq> []" for D
  proof -
    have "(\<Union>e \<in> set ob'. idStrings str (ofObject D e)) =
          (\<Union>j \<in> {..<length ob}. idStrings str (ofObject D (ob' ! j)))"
      by (simp only: UN_set_nth len(1))
    also have "\<dots> = (\<Union>j \<in> {..<length ob}.
          idStrings str (ofObject D (ob ! j)) \<union> idStrings str (orNew (getActivity D a)))"
      using B by simp
    also have "\<dots> = (\<Union>e \<in> set ob. idStrings str (ofObject D e))
          \<union> idStrings str (orNew (getActivity D a))"
      using ne by (subst UN_set_nth) auto
    finally show ?thesis using A by auto
  qed
  show ?thesis
  proof (intro exI conjI)
    show "ActivityStreamsObject a = Some ob" by (rule ob)
    show "ActivityStreamsObject a' = Some ob'" by (rule obj')
    show "length ob' = length ob" by (rule len(1))
    show "\<forall>D. idStrings str (orNew (getActivity D a')) =
             idStrings str (orNew (getActivity D a)) \<union> (\<Union>e \<in> set ob. idStrings str (ofObject D e))"
      using A by simp
    show "\<forall>D. \<forall>j < length ob.
         idStrings str (ofObject D (ob' ! j)) =
           idStrings str (ofObject D (ob ! j)) \<union> idStrings str (orNew (getActivity D a))"
      using B by simp
    show "ob \<noteq> [] \<longrightarrow>
        (\<forall>D. idStrings str (orNew (getActivity D a')) =
                (\<Union>e \<in> set ob'. idStrings str (ofObject D e)))"
      using C by simp
  qed
qed


theorem normalizeRecipients_sets_witness:
  "normalizeRecipients id rev exCreateA = Inr exNormalized
   \<and> idStrings id (orNew (getActivity To exNormalized)) =
       (\<Union>e \<in> set (orNew (ActivityStreamsObject exNormalized)). idStrings id (ofObject To e))
   \<and> idStrings id (orNew (getActivity To exNormalized)) =
       {''https://b.example/b'', ''https://d.example/d'', ''https://e.example/e''}
   \<and> idStrings id (ofObject To (orNew (ActivityStreamsObject exNormalized) ! 0)) =
       {''https://d.example/d'', ''https://b.example/b''}"
proof -
  have r: "\<And>m :: (string \<times> string) list. set (rev m) = set m" by simp
  from normalizeRecipients_sets [of rev id exCreateA exNormalized, OF r normalizeRecipients_example]
  obtain ob ob' where all:
    "ActivityStreamsObject exCreateA = Some ob \<and> ActivityStreamsObject exNormalized = Some ob' \<and>
     length ob' = length ob \<and>
     (\<forall>D. idStrings id (orNew (getActivity D exNormalized)) =
             idStrings id (orNew (getActivity D exCreateA)) \<union> (\<Union>e \<in> set ob. idStrings id (ofObject D e))) \<and>
     (\<forall>D. \<forall>j < length ob.
         idStrings id (ofObject D (ob' ! j)) =
           idStrings id (ofObject D (ob ! j)) \<union> idStrings id (orNew (getActivity D exCreateA))) \<and>
     (ob \<noteq> [] \<longrightarrow>
        (\<forall>D. idStrings id (orNew (getActivity D exNormalized)) =
                (\<Union>e \<in> set ob'. idStrings id (ofObject D e))))"
    by (elim exE)
  from all have ob: "ActivityStreamsObject exCreateA = Some ob" by (rule conjunct1)
  from all have ob': "ActivityStreamsObject exNormalized = Some ob'"
    by (rule conjunct1 [OF conjunct2])
  from all have u: "ob \<noteq> [] \<longrightarrow> (\<forall>D. idStrings id (orNew (getActivity D exNormalized)) =
                (\<Union>e \<in> set ob'. idStrings id (ofObject D e)))"
    by (rule conjunct2 [OF conjunct2 [OF conjunct2 [OF conjunct2 [OF conjunct2]]]])
  from ob have "ob \<noteq> []" by (auto simp: exCreateA_def)
  with u have "idStrings id (orNew (getActivity To exNormalized)) =
                (\<Union>e \<in> set ob'. idStrings id (ofObject To e))"
    by blast
  then have
    "idStrings id (orNew (getActivity To exNormalized)) =
       (\<Union>e \<in> set (orNew (ActivityStreamsObject exNormalized)). idStrings id (ofObject To e))"
    unfolding ob' orNew_simps .
  moreover have "idStrings id (orNew (getActivity To exNormalized)) =
       {''https://b.example/b'', ''https://d.example/d'', ''https://e.example/e''}"
    by (simp add: exNormalized_def orNew_def idStrings_def)
  moreover have "idStrings id (ofObject To (orNew (ActivityStreamsObject exNormalized) ! 0)) =
       {''https://d.example/d'', ''https://b.example/b''}"
    by (simp add: exNormalized_def orNew_def idStrings_def ofObject_def elems_def)
  ultimately show ?thesis
    using normalizeRecipients_example by simp
qed

text \<open>
  C1 as stated holds for every Create. For a Create whose \<open>object\<close> property is empty the
  function returns without error, the activity keeps its recipient, and the union over
  no objects is empty.
\<close>

theorem normalizeRecipients_no_object_counterexample:
  "normalizeRecipients id rev exCreateNoObject =
     Inr (exCreateNoObject\<lparr>ActivityStreamsBto := Some [], ActivityStreamsCc := Some [],
            ActivityStreamsBcc := Some [], ActivityStreamsAudience := Some []\<rparr>)
   \<and> idStrings id (orNew (getActivity To
         (exCreateNoObject\<lparr>ActivityStreamsBto := Some [], ActivityStreamsCc := Some [],
            ActivityStreamsBcc := Some [], ActivityStreamsAudience := Some []\<rparr>)))
       = {''https://b.example/b''}
   \<and> (\<Union>e \<in> set (orNew (ActivityStreamsObject
         (exCreateNoObject\<lparr>ActivityStreamsBto := Some [], ActivityStreamsCc := Some [],
            ActivityStreamsBcc := Some [], ActivityStreamsAudience := Some []\<rparr>))).
         idStrings id (ofObject To e)) = {}"
proof (intro conjI)
  show "normalizeRecipients id rev exCreateNoObject =
     Inr (exCreateNoObject\<lparr>ActivityStreamsBto := Some [], ActivityStreamsCc := Some [],
            ActivityStreamsBcc := Some [], ActivityStreamsAudience := Some []\<rparr>)"
    by code_simp
  show "idStrings id (orNew (getActivity To
         (exCreateNoObject\<lparr>ActivityStreamsBto := Some [], ActivityStreamsCc := Some [],
            ActivityStreamsBcc := Some [], ActivityStreamsAudience := Some []\<rparr>)))
       = {''https://b.example/b''}"
    by (simp add: exCreateNoObject_def orNew_def idStrings_def)
  show "(\<Union>e \<in> set (orNew (ActivityStreamsObject
         (exCreateNoObject\<lparr>ActivityStreamsBto := Some [], ActivityStreamsCc := Some [],
            ActivityStreamsBcc := Some [], ActivityStreamsAudience := Some []\<rparr>))).
         idStrings id (ofObject To e)) = {}"
    by (simp add: exCreateNoObject_def orNew_def)
qed

section \<open>Deliver\<close>

lemma copyBytes_same_length: "length dst = length src \<Longrightarrow> copyBytes dst src = src"
  by (simp add: copyBytes_def)

lemma Deliver_store:
  assumes "Deliver h lib (w, st) b to = ((w', st'), res)"
  shows "\<exists>c. st' = st @ [c]"
proof -
  have u: "(st @ [x])[length st := y] = st @ [y]" for x y :: "byte list"
    by (simp add: list_update_append)
  from assms show ?thesis
    by (auto simp: Deliver_def Let_def u split: option.splits prod.splits sum.splits if_splits)
qed

lemma Deliver_frame:
  assumes "Deliver h lib (w, st) b to = ((w', st'), res)"
  shows "length st' = Suc (length st) \<and> (\<forall>a < length st. st' ! a = st ! a)"
  using Deliver_store [OF assms] by (auto simp: nth_append)

lemma Deliver_observed:
  assumes d: "Deliver (observed h) lib ((w, log), st) b to = (((w', log'), st'), res)"
    and b: "b < length st"
  shows "log' = log \<or> log' = log @ [(urlString lib to, st ! b)]"
proof -
  have u: "(st @ [x])[length st := y] = st @ [y]" for x y :: "byte list"
    by (simp add: list_update_append)
  have c: "copyBytes (replicate (length (st ! b)) 0) (st ! b) = st ! b"
    by (simp add: copyBytes_same_length)
  from d b show ?thesis
    by (auto simp: Deliver_def Let_def u c observed_def Add_def nth_append
        split: option.splits prod.splits sum.splits if_splits)
qed


section \<open>BatchDeliver\<close>

lemma errorsOf_append: "errorsOf (xs @ ys) = errorsOf xs @ errorsOf ys"
  by (simp add: errorsOf_def)

lemma errorsOf_split:
  "i < length ts \<Longrightarrow>
   errorsOf ts = errorsOf (take i ts) @ errorsOf [ts ! i] @ errorsOf (drop (Suc i) ts)"
  by (metis errorsOf_append id_take_nth_drop append_Cons append_Nil)

lemma errorsOf_update:
  "i < length ts \<Longrightarrow>
   errorsOf (ts[i := t]) = errorsOf (take i ts) @ errorsOf [t] @ errorsOf (drop (Suc i) ts)"
  by (metis errorsOf_append upd_conv_take_nth_drop append_Cons append_Nil)

lemma length_errorsOf_le: "length (errorsOf ts) \<le> length ts"
  by (induction ts) (auto simp: errorsOf_def split: task.splits option.splits)

lemma length_errorsOf_less:
  assumes "i < length ts" and "errorsOf [ts ! i] = []"
  shows "length (errorsOf ts) < length ts"
proof -
  have "length (errorsOf ts) =
        length (errorsOf (take i ts)) + length (errorsOf (drop (Suc i) ts))"
    using assms by (simp add: errorsOf_split [OF assms(1)])
  also have "\<dots> \<le> length (take i ts) + length (drop (Suc i) ts)"
    by (intro add_mono length_errorsOf_le)
  also have "\<dots> < length ts"
    using assms(1) by simp
  finally show ?thesis .
qed

lemma stepTask_cases:
  assumes "i < length (tasks s)"
  obtains
    (pending) r w st res where "tasks s ! i = Pending r"
      "Deliver h lib (world s, heap s) b r = ((w, st), res)"
      "stepTask h lib b i s =
         s\<lparr>tasks := (tasks s)[i := (case res of None \<Rightarrow> Finished r None | Some e \<Rightarrow> Sending r e)],
            world := w, heap := st\<rparr>"
  | (sending) r e where "tasks s ! i = Sending r e" "length (errCh s) < length (tasks s)"
      "stepTask h lib b i s =
         s\<lparr>errCh := errCh s @ [e], tasks := (tasks s)[i := Finished r (Some e)]\<rparr>"
  | (blocked) r e where "tasks s ! i = Sending r e" "\<not> length (errCh s) < length (tasks s)"
      "stepTask h lib b i s = s"
  | (finished) r res where "tasks s ! i = Finished r res" "stepTask h lib b i s = s"
proof (cases "tasks s ! i")
  case (Pending r)
  obtain w st res where d: "Deliver h lib (world s, heap s) b r = ((w, st), res)"
    by (metis prod.exhaust)
  show ?thesis
    by (rule pending [OF Pending d])
       (use assms Pending d in \<open>simp add: stepTask_def split: option.splits\<close>)
next
  case (Sending r e)
  show ?thesis
  proof (cases "length (errCh s) < length (tasks s)")
    case True
    show ?thesis
      by (rule sending [OF Sending True]) (use assms Sending True in \<open>simp add: stepTask_def\<close>)
  next
    case False
    show ?thesis
      by (rule blocked [OF Sending False]) (use assms Sending False in \<open>simp add: stepTask_def\<close>)
  qed
next
  case (Finished r res)
  show ?thesis
    by (rule finished [OF Finished]) (use assms Finished in \<open>simp add: stepTask_def\<close>)
qed

lemma stepTask_out_of_range: "\<not> i < length (tasks s) \<Longrightarrow> stepTask h lib b i s = s"
  by (simp add: stepTask_def)

lemma stepTask_length [simp]: "length (tasks (stepTask h lib b i s)) = length (tasks s)"
proof (cases "i < length (tasks s)")
  case True
  then show ?thesis by (cases rule: stepTask_cases [of i s h lib b]) simp_all
qed (simp add: stepTask_out_of_range)

lemma set_update_cases:
  "t \<in> set (ts[i := x]) \<Longrightarrow> t = x \<or> t \<in> set ts"
  by (metis in_set_conv_nth length_list_update nth_list_update_eq nth_list_update_neq nth_mem)

lemma batchInv_step:
  assumes inv: "batchInv h lib b recipients s"
  shows "batchInv h lib b recipients (stepTask h lib b i s)"
proof (cases "i < length (tasks s)")
  case False
  with inv show ?thesis by (simp add: stepTask_out_of_range)
next
  case True
  from inv have rec: "map recipientOf (tasks s) = recipients"
    and ch: "mset (errCh s) = mset (errorsOf (tasks s))"
    and oc: "\<forall>t \<in> set (tasks s). stage t = 0 \<or>
        (\<exists>w st. snd (Deliver h lib (w, st) b (recipientOf t)) = outcomeOf t)"
    by (simp_all add: batchInv_def)
  have recupd: "map recipientOf ((tasks s)[i := t]) = recipients"
    if "recipientOf t = recipientOf (tasks s ! i)" for t
  proof -
    have "map recipientOf ((tasks s)[i := t]) =
          (map recipientOf (tasks s))[i := map recipientOf (tasks s) ! i]"
      using that True by (simp add: map_update)
    also have "\<dots> = map recipientOf (tasks s)" by (rule list_update_id)
    finally show ?thesis using rec by simp
  qed
  from True show ?thesis
  proof (cases rule: stepTask_cases [of i s h lib b])
    case (pending r w st res)
    let ?t = "case res of None \<Rightarrow> Finished r None | Some e \<Rightarrow> Sending r e"
    have 1: "map recipientOf ((tasks s)[i := ?t]) = recipients"
      by (rule recupd) (simp add: pending(1) recipientOf_def split: option.splits)
    have 2: "errorsOf ((tasks s)[i := ?t]) = errorsOf (tasks s)"
      using pending(1)
      by (simp add: errorsOf_update [OF True] errorsOf_split [OF True, of] )
         (simp add: errorsOf_def split: option.splits)
    have "snd (Deliver h lib (world s, heap s) b (recipientOf ?t)) = outcomeOf ?t"
      using pending(2) by (simp add: recipientOf_def outcomeOf_def split: option.splits)
    then have 3: "\<exists>w st. snd (Deliver h lib (w, st) b (recipientOf ?t)) = outcomeOf ?t"
      by blast
    have 4: "\<forall>t \<in> set ((tasks s)[i := ?t]). stage t = 0 \<or>
        (\<exists>w st. snd (Deliver h lib (w, st) b (recipientOf t)) = outcomeOf t)"
      using oc 3 by (blast dest: set_update_cases)
    show ?thesis
      unfolding pending(3) using 1 2 4 ch by (simp add: batchInv_def)
  next
    case (sending r e)
    let ?t = "Finished r (Some e)"
    have 1: "map recipientOf ((tasks s)[i := ?t]) = recipients"
      by (rule recupd) (simp add: sending(1) recipientOf_def)
    have 2: "mset (errorsOf ((tasks s)[i := ?t])) = mset (errorsOf (tasks s)) + {#e#}"
      using sending(1)
      by (simp add: errorsOf_update [OF True] errorsOf_split [OF True])
         (simp add: errorsOf_def)
    from oc sending(1) True have "\<exists>w st. snd (Deliver h lib (w, st) b r) = Some e"
      by (force simp: stage_def recipientOf_def outcomeOf_def dest: nth_mem)
    then have 3: "\<exists>w st. snd (Deliver h lib (w, st) b (recipientOf ?t)) = outcomeOf ?t"
      by (simp add: recipientOf_def outcomeOf_def)
    have 4: "\<forall>t \<in> set ((tasks s)[i := ?t]). stage t = 0 \<or>
        (\<exists>w st. snd (Deliver h lib (w, st) b (recipientOf t)) = outcomeOf t)"
      using oc 3 by (blast dest: set_update_cases)
    show ?thesis
      unfolding sending(3) using 1 2 4 ch by (simp add: batchInv_def)
  next
    case (blocked r e)
    with inv show ?thesis by simp
  next
    case (finished r res)
    with inv show ?thesis by simp
  qed
qed

lemma batchInv_run:
  "batchInv h lib b recipients s \<Longrightarrow>
   batchInv h lib b recipients (foldl (\<lambda>s i. stepTask h lib b i s) s sched)"
  by (induction sched arbitrary: s) (simp_all add: batchInv_step)

lemma batchInv_init:
  "batchInv h lib b recipients
     \<lparr>tasks = map Pending recipients, errCh = [], world = w, heap = st\<rparr>"
proof -
  have "map recipientOf (map Pending recipients) = recipients"
    by (induction recipients) (simp_all add: recipientOf_def)
  moreover have "errorsOf (map Pending recipients) = []"
    by (induction recipients) (simp_all add: errorsOf_def)
  ultimately show ?thesis
    by (auto simp: batchInv_def stage_def)
qed


lemma stepTask_other:
  "j \<noteq> i \<Longrightarrow> tasks (stepTask h lib b i s) ! j = tasks s ! j"
proof (cases "i < length (tasks s)")
  case True
  assume "j \<noteq> i"
  with True show ?thesis
    by (cases rule: stepTask_cases [of i s h lib b]) simp_all
qed (simp add: stepTask_out_of_range)

lemma stepTask_self:
  assumes inv: "batchInv h lib b recipients s" and i: "i < length (tasks s)"
  shows "min 2 (Suc (stage (tasks s ! i))) \<le> stage (tasks (stepTask h lib b i s) ! i)"
  using i
proof (cases rule: stepTask_cases [of i s h lib b])
  case (pending r w st res)
  with i show ?thesis by (simp add: stage_def split: option.splits)
next
  case (sending r e)
  with i show ?thesis by (simp add: stage_def)
next
  case (blocked r e)
  from inv have "size (mset (errCh s)) = size (mset (errorsOf (tasks s)))"
    by (simp add: batchInv_def)
  then have "length (errCh s) = length (errorsOf (tasks s))" by simp
  moreover have "length (errorsOf (tasks s)) < length (tasks s)"
    using i blocked(1) by (intro length_errorsOf_less [of i]) (simp_all add: errorsOf_def)
  ultimately show ?thesis using blocked(2) by simp
next
  case (finished r res)
  then show ?thesis by (simp add: stage_def)
qed

lemma run_stage:
  "batchInv h lib b recipients s \<Longrightarrow> j < length (tasks s) \<Longrightarrow>
   min 2 (stage (tasks s ! j) + count_list sched j)
     \<le> stage (tasks (foldl (\<lambda>s i. stepTask h lib b i s) s sched) ! j)"
proof (induction sched arbitrary: s)
  case Nil
  then show ?case by simp
next
  case (Cons i sched)
  let ?s = "stepTask h lib b i s"
  have inv: "batchInv h lib b recipients ?s" by (rule batchInv_step [OF Cons.prems(1)])
  have len: "j < length (tasks ?s)" using Cons.prems(2) by simp
  note ih = Cons.IH [OF inv len]
  show ?case
  proof (cases "i = j")
    case True
    from stepTask_self [OF Cons.prems(1), of j] Cons.prems(2) True
    have "min 2 (Suc (stage (tasks s ! j))) \<le> stage (tasks ?s ! j)" by simp
    with ih True show ?thesis by simp
  next
    case False
    then have "tasks ?s ! j = tasks s ! j" by (simp add: stepTask_other)
    with ih False show ?thesis by simp
  qed
qed

lemma isFinished_stage: "isFinished t \<longleftrightarrow> 2 \<le> stage t"
  by (cases t) (simp_all add: isFinished_def stage_def)

lemma drain_map: "drain Error ch acc = acc @ map Error ch"
  by (induction ch arbitrary: acc) simp_all

lemma Join_sublist: "x \<in> set xs \<Longrightarrow> sublist x (Join xs sep)"
proof (induction xs sep rule: Join.induct)
  case (1 sep)
  then show ?case by simp
next
  case (2 x' sep)
  then show ?case by simp
next
  case (3 x' y ys sep)
  show ?case
  proof (cases "x = x'")
    case True
    then show ?thesis by (simp add: sublist_append_rightI)
  next
    case False
    with 3 have "sublist x (Join (y # ys) sep)" by simp
    then have "sublist x ((x' @ sep) @ Join (y # ys) sep)"
      by (rule sublist_order.order_trans) (rule sublist_append_leftI)
    then show ?thesis by simp
  qed
qed

lemma errorsOf_set:
  "e \<in> set (errorsOf ts) \<longleftrightarrow> (\<exists>t \<in> set ts. isFinished t \<and> outcomeOf t = Some e)"
  by (induction ts)
     (auto simp: errorsOf_def isFinished_def outcomeOf_def split: task.splits option.splits)

lemma errorsOf_finished:
  "list_all isFinished ts \<Longrightarrow>
   map Some (errorsOf ts) = filter (\<lambda>x. x \<noteq> None) (map outcomeOf ts)"
  by (induction ts)
     (auto simp: errorsOf_def isFinished_def outcomeOf_def split: task.splits option.splits)

text \<open>
  C4. \<open>BatchDeliver\<close> under a schedule \<open>sched\<close> of the steps of its goroutines, a call of
  \<^verbatim>\<open>Deliver\<close> being one step. When the schedule gives every goroutine at least two steps
  (its call and its send), \<^verbatim>\<open>wg.Wait()\<close> returns and \<open>BatchDeliver\<close> returns: the channel
  has room for the error of every recipient, so no send blocks. Whenever it returns, there
  is one goroutine for every recipient, each is done, and each holds what a call of
  \<^verbatim>\<open>Deliver\<close> for its recipient returned, so no failure keeps another delivery from being
  made; the result is nil exactly when every one of these calls returned nil. The errors
  of the calls that failed, one for every such call, are the errors \<open>es\<close> taken from the
  channel, in the order the schedule sent them: the result is nil when there are none, and
  otherwise the one error \<open>ErrBatchDeliver\<close> of the texts of all of \<open>es\<close> joined with
  \<^verbatim>\<open>"; "\<close>, so that the text of every error is part of it and none is left out, two
  failures with the same text being there twice.
\<close>

theorem BatchDeliver_aggregate:
  "((\<forall>i < length recipients. 2 \<le> count_list sched i) \<longrightarrow>
      (\<exists>r. BatchDeliver h lib Error sched s b recipients = Some r))
   \<and> (\<forall>s' res. BatchDeliver h lib Error sched s b recipients = Some (s', res) \<longrightarrow>
        map recipientOf (tasks (runBatch h lib sched s b recipients)) = recipients
      \<and> list_all isFinished (tasks (runBatch h lib sched s b recipients))
      \<and> (\<forall>t \<in> set (tasks (runBatch h lib sched s b recipients)).
            \<exists>w st. snd (Deliver h lib (w, st) b (recipientOf t)) = outcomeOf t)
      \<and> (res = None \<longleftrightarrow>
            (\<forall>t \<in> set (tasks (runBatch h lib sched s b recipients)). outcomeOf t = None))
      \<and> (\<forall>t \<in> set (tasks (runBatch h lib sched s b recipients)). \<forall>e.
            outcomeOf t = Some e \<longrightarrow>
            (\<exists>joined. res = Some (ErrBatchDeliver joined) \<and> sublist (Error e) joined))
      \<and> map Some (errorsOf (tasks (runBatch h lib sched s b recipients)))
          = filter (\<lambda>x. x \<noteq> None) (map outcomeOf (tasks (runBatch h lib sched s b recipients)))
      \<and> (\<exists>es. mset es = mset (errorsOf (tasks (runBatch h lib sched s b recipients)))
            \<and> res = (if es = [] then None
                      else Some (ErrBatchDeliver (Join (map Error es) ''; '')))))"
proof -
  let ?s0 = "\<lparr>tasks = map Pending recipients, errCh = [], world = fst s, heap = snd s\<rparr>"
  let ?s1 = "runBatch h lib sched s b recipients"
  have inv: "batchInv h lib b recipients ?s1"
    unfolding runBatch_def by (intro batchInv_run batchInv_init)
  then have rec: "map recipientOf (tasks ?s1) = recipients"
    and ch: "mset (errCh ?s1) = mset (errorsOf (tasks ?s1))"
    and oc: "\<forall>t \<in> set (tasks ?s1). stage t = 0 \<or>
        (\<exists>w st. snd (Deliver h lib (w, st) b (recipientOf t)) = outcomeOf t)"
    by (simp_all add: batchInv_def)
  have total: "\<exists>r. BatchDeliver h lib Error sched s b recipients = Some r"
    if en: "\<forall>i < length recipients. 2 \<le> count_list sched i"
  proof -
    have "isFinished (tasks ?s1 ! j)" if j: "j < length (tasks ?s1)" for j
    proof -
      from rec j have jr: "j < length recipients" by (metis length_map)
      then have "min 2 (stage (tasks ?s0 ! j) + count_list sched j) \<le> stage (tasks ?s1 ! j)"
        unfolding runBatch_def by (intro run_stage [OF batchInv_init]) simp
      moreover from en jr have "2 \<le> count_list sched j" by simp
      ultimately show ?thesis by (simp add: isFinished_stage stage_def)
    qed
    then have "list_all isFinished (tasks ?s1)"
      by (simp add: list_all_length)
    then show ?thesis by (simp add: BatchDeliver_def Let_def)
  qed
  have result: "map recipientOf (tasks ?s1) = recipients
      \<and> list_all isFinished (tasks ?s1)
      \<and> (\<forall>t \<in> set (tasks ?s1). \<exists>w st. snd (Deliver h lib (w, st) b (recipientOf t)) = outcomeOf t)
      \<and> (res = None \<longleftrightarrow> (\<forall>t \<in> set (tasks ?s1). outcomeOf t = None))
      \<and> (\<forall>t \<in> set (tasks ?s1). \<forall>e. outcomeOf t = Some e \<longrightarrow>
            (\<exists>joined. res = Some (ErrBatchDeliver joined) \<and> sublist (Error e) joined))
      \<and> map Some (errorsOf (tasks ?s1)) = filter (\<lambda>x. x \<noteq> None) (map outcomeOf (tasks ?s1))
      \<and> (\<exists>es. mset es = mset (errorsOf (tasks ?s1))
            \<and> res = (if es = [] then None
                      else Some (ErrBatchDeliver (Join (map Error es) ''; ''))))"
    if bd: "BatchDeliver h lib Error sched s b recipients = Some (s', res)" for s' res
  proof -
    from bd have fin: "list_all isFinished (tasks ?s1)"
      by (simp add: BatchDeliver_def Let_def split: if_splits)
    from bd fin have res: "res = (if errCh ?s1 = [] then None
        else Some (ErrBatchDeliver (Join (map Error (errCh ?s1)) ''; '')))"
      by (auto simp: BatchDeliver_def Let_def drain_map)
    from ch have sets: "set (errCh ?s1) = set (errorsOf (tasks ?s1))"
      by (rule mset_eq_setD)
    have tfin: "isFinished t" if "t \<in> set (tasks ?s1)" for t
      using fin that by (simp add: list_all_iff)
    have 3: "\<forall>t \<in> set (tasks ?s1). \<exists>w st. snd (Deliver h lib (w, st) b (recipientOf t)) = outcomeOf t"
    proof
      fix t assume t: "t \<in> set (tasks ?s1)"
      from tfin [OF t] have "stage t \<noteq> 0" by (simp add: isFinished_stage)
      moreover from oc t have "stage t = 0 \<or>
          (\<exists>w st. snd (Deliver h lib (w, st) b (recipientOf t)) = outcomeOf t)"
        by (rule bspec)
      ultimately show "\<exists>w st. snd (Deliver h lib (w, st) b (recipientOf t)) = outcomeOf t"
        by simp
    qed
    have 4: "res = None \<longleftrightarrow> (\<forall>t \<in> set (tasks ?s1). outcomeOf t = None)"
    proof -
      have "errCh ?s1 = [] \<longleftrightarrow> set (errorsOf (tasks ?s1)) = {}"
        using sets by (metis set_empty)
      also have "\<dots> \<longleftrightarrow> (\<forall>t \<in> set (tasks ?s1). outcomeOf t = None)"
        using tfin by (auto simp: errorsOf_set set_eq_iff) (metis option.exhaust)
      finally show ?thesis using res by simp
    qed
    have 5: "\<forall>t \<in> set (tasks ?s1). \<forall>e. outcomeOf t = Some e \<longrightarrow>
            (\<exists>joined. res = Some (ErrBatchDeliver joined) \<and> sublist (Error e) joined)"
    proof (intro ballI allI impI)
      fix t e assume t: "t \<in> set (tasks ?s1)" and e: "outcomeOf t = Some e"
      with tfin [OF t] have "e \<in> set (errCh ?s1)"
        unfolding sets errorsOf_set by blast
      then have ne: "errCh ?s1 \<noteq> []" and "Error e \<in> set (map Error (errCh ?s1))"
        by auto
      then have "sublist (Error e) (Join (map Error (errCh ?s1)) ''; '')"
        by (intro Join_sublist)
      with ne res show "\<exists>joined. res = Some (ErrBatchDeliver joined) \<and> sublist (Error e) joined"
        by simp
    qed
    from fin have 6: "map Some (errorsOf (tasks ?s1))
        = filter (\<lambda>x. x \<noteq> None) (map outcomeOf (tasks ?s1))"
      by (rule errorsOf_finished)
    from ch res have 7: "\<exists>es. mset es = mset (errorsOf (tasks ?s1))
            \<and> res = (if es = [] then None
                      else Some (ErrBatchDeliver (Join (map Error es) ''; '')))"
      by (intro exI [of _ "errCh ?s1"] conjI)
    from rec fin 3 4 5 6 7 show ?thesis by (intro conjI)
  qed
  show ?thesis
  proof (rule conjI)
    show "(\<forall>i < length recipients. 2 \<le> count_list sched i) \<longrightarrow>
      (\<exists>r. BatchDeliver h lib Error sched s b recipients = Some r)"
      using total by (rule impI)
  next
    show "\<forall>s' res. BatchDeliver h lib Error sched s b recipients = Some (s', res) \<longrightarrow>
        map recipientOf (tasks ?s1) = recipients
      \<and> list_all isFinished (tasks ?s1)
      \<and> (\<forall>t \<in> set (tasks ?s1). \<exists>w st. snd (Deliver h lib (w, st) b (recipientOf t)) = outcomeOf t)
      \<and> (res = None \<longleftrightarrow> (\<forall>t \<in> set (tasks ?s1). outcomeOf t = None))
      \<and> (\<forall>t \<in> set (tasks ?s1). \<forall>e. outcomeOf t = Some e \<longrightarrow>
            (\<exists>joined. res = Some (ErrBatchDeliver joined) \<and> sublist (Error e) joined))
      \<and> map Some (errorsOf (tasks ?s1)) = filter (\<lambda>x. x \<noteq> None) (map outcomeOf (tasks ?s1))
      \<and> (\<exists>es. mset es = mset (errorsOf (tasks ?s1))
            \<and> res = (if es = [] then None
                      else Some (ErrBatchDeliver (Join (map Error es) ''; ''))))"
    proof (intro allI impI)
      fix s' res
      assume "BatchDeliver h lib Error sched s b recipients = Some (s', res)"
      then show "map recipientOf (tasks ?s1) = recipients
        \<and> list_all isFinished (tasks ?s1)
        \<and> (\<forall>t \<in> set (tasks ?s1). \<exists>w st. snd (Deliver h lib (w, st) b (recipientOf t)) = outcomeOf t)
        \<and> (res = None \<longleftrightarrow> (\<forall>t \<in> set (tasks ?s1). outcomeOf t = None))
        \<and> (\<forall>t \<in> set (tasks ?s1). \<forall>e. outcomeOf t = Some e \<longrightarrow>
              (\<exists>joined. res = Some (ErrBatchDeliver joined) \<and> sublist (Error e) joined))
        \<and> map Some (errorsOf (tasks ?s1)) = filter (\<lambda>x. x \<noteq> None) (map outcomeOf (tasks ?s1))
        \<and> (\<exists>es. mset es = mset (errorsOf (tasks ?s1))
              \<and> res = (if es = [] then None
                        else Some (ErrBatchDeliver (Join (map Error es) ''; ''))))"
        by (rule result)
    qed
  qed
qed

lemma BatchDeliver_example:
  "BatchDeliver exTransport exLib exError [2,0,1,1,0,2] (0, [[1,2,3]]) 0 exRecipients
   = Some ((3, [[1, 2, 3], [1, 2, 3], [1, 2, 3], [1, 2, 3]]),
       Some (ErrBatchDeliver
         ''POST to https://c.example/inbox failed: 500 Internal Server Error; no such host''))"
  by code_simp

lemma runBatch_example:
  "tasks (runBatch exTransport exLib [2,0,1,1,0,2] (0, [[1,2,3]]) 0 exRecipients) =
     [Finished ''https://b.example/inbox'' None,
      Finished ''https://c.example/inbox''
        (Some (ErrPostFailed ''https://c.example/inbox'' 500 ''500 Internal Server Error'' [] [1, 2, 3])),
      Finished ''https://d.example/inbox'' (Some (ErrExternal ''no such host''))]"
  by code_simp

text \<open>Two recipients whose deliveries fail with the same text: both are in the aggregate.\<close>

lemma BatchDeliver_example_repeated:
  "BatchDeliver exTransport exLib exError [0,1,1,0] (0, [[1,2,3]]) 0
         [''https://d.example/inbox'', ''https://e.example/inbox'']
       = Some ((2, [[1, 2, 3], [1, 2, 3], [1, 2, 3]]),
           Some (ErrBatchDeliver ''no such host; no such host''))"
  by code_simp

theorem BatchDeliver_aggregate_witness:
  "BatchDeliver exTransport exLib exError [2,0,1,1,0,2] (0, [[1,2,3]]) 0 exRecipients
   = Some ((3, [[1, 2, 3], [1, 2, 3], [1, 2, 3], [1, 2, 3]]),
       Some (ErrBatchDeliver
         ''POST to https://c.example/inbox failed: 500 Internal Server Error; no such host''))
   \<and> sublist ''no such host''
         ''POST to https://c.example/inbox failed: 500 Internal Server Error; no such host''
   \<and> sublist ''POST to https://c.example/inbox failed: 500 Internal Server Error''
         ''POST to https://c.example/inbox failed: 500 Internal Server Error; no such host''
   \<and> BatchDeliver exTransport exLib exError [0,1,1,0] (0, [[1,2,3]]) 0
         [''https://d.example/inbox'', ''https://e.example/inbox'']
       = Some ((2, [[1, 2, 3], [1, 2, 3], [1, 2, 3]]),
           Some (ErrBatchDeliver ''no such host; no such host''))"
proof -
  let ?ts = "tasks (runBatch exTransport exLib [2,0,1,1,0,2] (0, [[1,2,3]]) 0 exRecipients)"
  let ?res = "Some (ErrBatchDeliver
         ''POST to https://c.example/inbox failed: 500 Internal Server Error; no such host'')"
  from BatchDeliver_aggregate [of exRecipients "[2,0,1,1,0,2]" exTransport exLib exError
      "(0, [[1,2,3]])" 0] BatchDeliver_example
  have agg: "\<forall>t \<in> set ?ts. \<forall>e. outcomeOf t = Some e \<longrightarrow>
            (\<exists>joined. ?res = Some (ErrBatchDeliver joined) \<and> sublist (exError e) joined)"
    by blast
  have d: "Finished ''https://d.example/inbox'' (Some (ErrExternal ''no such host'')) \<in> set ?ts"
    unfolding runBatch_example by simp
  have c: "Finished ''https://c.example/inbox''
        (Some (ErrPostFailed ''https://c.example/inbox'' 500 ''500 Internal Server Error'' [] [1, 2, 3]))
        \<in> set ?ts"
    unfolding runBatch_example by simp
  from agg d have "\<exists>joined. ?res = Some (ErrBatchDeliver joined)
        \<and> sublist (exError (ErrExternal ''no such host'')) joined"
    by (simp add: outcomeOf_def)
  then have 1: "sublist ''no such host''
         ''POST to https://c.example/inbox failed: 500 Internal Server Error; no such host''"
    by (simp add: exError_def)
  from agg c have "\<exists>joined. ?res = Some (ErrBatchDeliver joined)
        \<and> sublist (exError (ErrPostFailed ''https://c.example/inbox'' 500
              ''500 Internal Server Error'' [] [1, 2, 3])) joined"
    by (simp add: outcomeOf_def)
  then have 2: "sublist ''POST to https://c.example/inbox failed: 500 Internal Server Error''
         ''POST to https://c.example/inbox failed: 500 Internal Server Error; no such host''"
    by (simp add: exError_def)
  from BatchDeliver_example 1 2 BatchDeliver_example_repeated show ?thesis by (intro conjI)
qed

section \<open>The payload\<close>

lemma Deliver_observed_same:
  assumes d: "Deliver (observed h) lib ((w, log), st) b to = (((w', log'), st'), res)"
  shows "Deliver h lib (w, st) b to = ((w', st'), res)"
proof -
  define st2 where "st2 = (st @ [replicate (length (st ! b)) 0])
              [length st := copyBytes ((st @ [replicate (length (st ! b)) 0]) ! length st)
                              ((st @ [replicate (length (st ! b)) 0]) ! b)]"
  define req where "req =
     Add ''Digest'' (''SHA-256='' @ sha256Base64 lib (st2 ! b))
       (Add ''Accept'' ''application/activity+json''
         (Add ''Host'' (urlHost lib to)
           (Add ''User-Agent'' (appAgent h @ '' '' @ gofedAgent h)
             (Add ''Date'' (clock h w @ '' GMT'')
               (Add ''Accept-Charset'' ''utf-8''
                 \<lparr>Method = ''POST'', URL = urlString lib to, Header = (\<lambda>_. []),
                    Body = length st\<rparr>)))))"
  have bd: "Body req = length st" by (simp add: req_def Add_def)
  have plain: "Deliver h lib (w, st) b to =
     (case newRequestError lib ''POST'' (urlString lib to) of
        Some err \<Rightarrow> ((w, st2), Some err)
      | None \<Rightarrow>
          (case postSigner h w req of
             (w1, hdr, Some err) \<Rightarrow> ((w1, st2), Some err)
           | (w1, hdr, None) \<Rightarrow>
               (case client h w1 (req\<lparr>Header := hdr\<rparr>) (st2 ! length st) of
                  (w2, left, Inl err) \<Rightarrow> ((w2, st2[length st := left]), Some err)
                | (w2, left, Inr resp) \<Rightarrow>
                    if \<not> isSuccess (StatusCode resp)
                    then ((w2, st2[length st := left]),
                          Some (ErrPostFailed (urlString lib to) (StatusCode resp)
                                  (Status resp) (RespBody resp) (st2[length st := left] ! length st)))
                    else ((w2, st2[length st := left]), None))))"
    unfolding Deliver_def Let_def st2_def req_def
    by (auto split: option.splits prod.splits sum.splits)
  have obs: "Deliver (observed h) lib ((w, log), st) b to =
     (case newRequestError lib ''POST'' (urlString lib to) of
        Some err \<Rightarrow> (((w, log), st2), Some err)
      | None \<Rightarrow>
          (case postSigner h w req of
             (w1, hdr, Some err) \<Rightarrow> (((w1, log), st2), Some err)
           | (w1, hdr, None) \<Rightarrow>
               (case client h w1 (req\<lparr>Header := hdr\<rparr>) (st2 ! length st) of
                  (w2, left, Inl err) \<Rightarrow>
                    (((w2, log @ [(urlString lib to, st2 ! length st)]), st2[length st := left]), Some err)
                | (w2, left, Inr resp) \<Rightarrow>
                    if \<not> isSuccess (StatusCode resp)
                    then (((w2, log @ [(urlString lib to, st2 ! length st)]), st2[length st := left]),
                          Some (ErrPostFailed (urlString lib to) (StatusCode resp)
                                  (Status resp) (RespBody resp) (st2[length st := left] ! length st)))
                    else (((w2, log @ [(urlString lib to, st2 ! length st)]), st2[length st := left]),
                          None))))"
    unfolding Deliver_def Let_def st2_def req_def
    by (auto simp: observed_def Add_def split: option.splits prod.splits sum.splits)
  from d show ?thesis
    unfolding plain obs
    by (auto split: option.splits prod.splits sum.splits if_splits) metis+
qed

lemma payloadInv_step:
  assumes b: "b < length st0" and inv: "payloadInv st0 b s"
  shows "payloadInv st0 b (stepTask (observed h) lib b i s)"
proof (cases "i < length (tasks s)")
  case False
  with inv show ?thesis by (simp add: stepTask_out_of_range)
next
  case True
  from inv obtain ext where ext: "heap s = st0 @ ext"
    and lg: "\<forall>(u, p) \<in> set (snd (world s)). p = st0 ! b"
    by (auto simp: payloadInv_def)
  from True show ?thesis
  proof (cases rule: stepTask_cases [of i s "observed h" lib b])
    case (pending r w st res)
    obtain w0 log where ws: "world s = (w0, log)" by (cases "world s")
    obtain w1 log1 where w: "w = (w1, log1)" by (cases w)
    from pending(2) have d: "Deliver (observed h) lib ((w0, log), heap s) b r = (((w1, log1), st), res)"
      by (simp add: ws w)
    from b ext have bh: "b < length (heap s)" and same: "heap s ! b = st0 ! b"
      by (simp_all add: nth_append)
    from Deliver_store [OF d] ext obtain c where "st = st0 @ (ext @ [c])" by auto
    moreover from Deliver_observed [OF d bh] same lg ws
    have "\<forall>(u, p) \<in> set log1. p = st0 ! b" by auto
    ultimately show ?thesis
      unfolding pending(3) by (simp add: payloadInv_def w)
  next
    case (sending r e)
    with inv show ?thesis by (simp add: payloadInv_def)
  next
    case (blocked r e)
    with inv show ?thesis by simp
  next
    case (finished r res)
    with inv show ?thesis by simp
  qed
qed

lemma payloadInv_run:
  "b < length st0 \<Longrightarrow> payloadInv st0 b s \<Longrightarrow>
   payloadInv st0 b (foldl (\<lambda>s i. stepTask (observed h) lib b i s) s sched)"
  by (induction sched arbitrary: s) (simp_all add: payloadInv_step)

text \<open>
  C10. Let the payload be the array at the address \<open>b\<close> of the store. \<^verbatim>\<open>Deliver\<close> changes no
  array that was in the store before the call, so the payload is byte for byte what it was:
  the request is built on \<open>byteCopy\<close>, a new array. The instrumented transport returns what
  the plain one returns, and in one call of \<^verbatim>\<open>Deliver\<close> the client is handed nothing or
  the URL of the recipient with the bytes of the payload. After the goroutines of
  \<open>BatchDeliver\<close>, all given the same address \<open>b\<close>, have run under any schedule, the
  payload is unchanged, and the bytes of every request that the client was handed are the
  bytes of the payload.
\<close>

theorem Deliver_leaves_payload:
  assumes b: "b < length st"
  shows "(\<forall>w' st' res. Deliver h lib (w, st) b to = ((w', st'), res) \<longrightarrow>
            st' ! b = st ! b \<and> (\<forall>a < length st. st' ! a = st ! a))
   \<and> (\<forall>w' log' st' res.
          Deliver (observed h) lib ((w, log), st) b to = (((w', log'), st'), res) \<longrightarrow>
            Deliver h lib (w, st) b to = ((w', st'), res)
          \<and> (log' = log \<or> log' = log @ [(urlString lib to, st ! b)]))
   \<and> heap (runBatch (observed h) lib sched ((w, []), st) b recipients) ! b = st ! b
   \<and> (\<forall>(u, payload) \<in> set (snd (world (runBatch (observed h) lib sched ((w, []), st) b recipients))).
          payload = st ! b)"
proof -
  have 1: "\<forall>w' st' res. Deliver h lib (w, st) b to = ((w', st'), res) \<longrightarrow>
            st' ! b = st ! b \<and> (\<forall>a < length st. st' ! a = st ! a)"
  proof (intro allI impI)
    fix w' st' res
    assume d: "Deliver h lib (w, st) b to = ((w', st'), res)"
    from Deliver_frame [OF d] b
    show "st' ! b = st ! b \<and> (\<forall>a < length st. st' ! a = st ! a)" by simp
  qed
  have 2: "\<forall>w' log' st' res.
          Deliver (observed h) lib ((w, log), st) b to = (((w', log'), st'), res) \<longrightarrow>
            Deliver h lib (w, st) b to = ((w', st'), res)
          \<and> (log' = log \<or> log' = log @ [(urlString lib to, st ! b)])"
  proof (intro allI impI)
    fix w' log' st' res
    assume d: "Deliver (observed h) lib ((w, log), st) b to = (((w', log'), st'), res)"
    from Deliver_observed_same [OF d] Deliver_observed [OF d b]
    show "Deliver h lib (w, st) b to = ((w', st'), res)
          \<and> (log' = log \<or> log' = log @ [(urlString lib to, st ! b)])" by (rule conjI)
  qed
  let ?s1 = "runBatch (observed h) lib sched ((w, []), st) b recipients"
  have "payloadInv st b
          \<lparr>tasks = map Pending recipients, errCh = [], world = (w, []), heap = st\<rparr>"
    by (simp add: payloadInv_def)
  then have inv: "payloadInv st b ?s1"
    unfolding runBatch_def using b by (simp add: payloadInv_run)
  then obtain ext where "heap ?s1 = st @ ext" by (auto simp: payloadInv_def)
  with b have 3: "heap ?s1 ! b = st ! b" by (simp add: nth_append)
  from inv have 4: "\<forall>(u, payload) \<in> set (snd (world ?s1)). payload = st ! b"
    by (simp add: payloadInv_def)
  from 1 2 3 4 show ?thesis by (intro conjI)
qed

lemma observed_example:
  "snd (world (runBatch (observed exTransport) exLib [2,0,1,1,0,2] ((0, []), [[1,2,3]]) 0 exRecipients))
     = [(''https://d.example/inbox'', [1, 2, 3]),
        (''https://b.example/inbox'', [1, 2, 3]),
        (''https://c.example/inbox'', [1, 2, 3])]"
  by code_simp

theorem Deliver_leaves_payload_witness:
  "heap (runBatch (observed exTransport) exLib [2,0,1,1,0,2] ((0, []), [[1,2,3]]) 0 exRecipients) ! 0
     = [1, 2, 3]
   \<and> list_all (\<lambda>(u, payload). payload = [1, 2, 3])
       (snd (world (runBatch (observed exTransport) exLib [2,0,1,1,0,2] ((0, []), [[1,2,3]]) 0
               exRecipients)))
   \<and> map fst (snd (world (runBatch (observed exTransport) exLib [2,0,1,1,0,2] ((0, []), [[1,2,3]]) 0
               exRecipients)))
       = [''https://d.example/inbox'', ''https://b.example/inbox'', ''https://c.example/inbox'']"
proof -
  have b: "(0::nat) < length [[1, 2, 3 :: byte]]" by simp
  from Deliver_leaves_payload [OF b, where h = exTransport and lib = exLib and w = 0
      and sched = "[2,0,1,1,0,2]" and recipients = exRecipients]
  have p1: "heap (runBatch (observed exTransport) exLib [2,0,1,1,0,2] ((0, []), [[1,2,3]]) 0 exRecipients) ! 0
         = [[1, 2, 3]] ! 0"
    and p2: "\<forall>(u, payload) \<in> set (snd (world (runBatch (observed exTransport) exLib [2,0,1,1,0,2]
            ((0, []), [[1,2,3]]) 0 exRecipients))). payload = [[1, 2, 3]] ! 0"
    by blast+
  have p3: "map fst (snd (world (runBatch (observed exTransport) exLib [2,0,1,1,0,2] ((0, []), [[1,2,3]]) 0
               exRecipients)))
       = [''https://d.example/inbox'', ''https://b.example/inbox'', ''https://c.example/inbox'']"
    unfolding observed_example by simp
  from p1 have q1: "heap (runBatch (observed exTransport) exLib [2,0,1,1,0,2] ((0, []), [[1,2,3]]) 0
      exRecipients) ! 0 = [1, 2, 3]"
    by simp
  from p2 have q2: "list_all (\<lambda>(u, payload). payload = [1, 2, 3])
       (snd (world (runBatch (observed exTransport) exLib [2,0,1,1,0,2] ((0, []), [[1,2,3]]) 0
               exRecipients)))"
    by (simp add: list_all_iff)
  from q1 q2 p3 show ?thesis by (intro conjI)
qed

end
